theory Spec2Isabelle
  imports Complex_Main "HOL-Library.Word"
begin

section \<open>Bytes, text and the character classes of the C library\<close>

text \<open>
  \<^verbatim>\<open>std::string\<close> is a sequence of bytes, modelled as \<^typ>\<open>string\<close> (a list of 8-bit
  \<^typ>\<open>char\<close>). The program never calls \<^verbatim>\<open>setlocale\<close>, so \<^verbatim>\<open>isspace\<close> and
  \<^verbatim>\<open>strtod\<close> work in the "C" locale: the white-space characters are space, \<^verbatim>\<open>\t\<close>,
  \<^verbatim>\<open>\n\<close>, \<^verbatim>\<open>\v\<close>, \<^verbatim>\<open>\f\<close>, \<^verbatim>\<open>\r\<close>, and the radix character is the full stop.
\<close>

definition isspace :: "char \<Rightarrow> bool" where
  "isspace c = (c \<in> set [CHR 0x20, CHR 0x09, CHR 0x0A, CHR 0x0B, CHR 0x0C, CHR 0x0D])"

definition isdigit :: "char \<Rightarrow> bool" where
  "isdigit c = (c \<in> set ''0123456789'')"

definition isxdigit :: "char \<Rightarrow> bool" where
  "isxdigit c = (c \<in> set ''0123456789abcdefABCDEF'')"

definition isupper :: "char \<Rightarrow> bool" where
  "isupper c = (c \<in> set ''ABCDEFGHIJKLMNOPQRSTUVWXYZ'')"

definition islower :: "char \<Rightarrow> bool" where
  "islower c = (c \<in> set ''abcdefghijklmnopqrstuvwxyz'')"

definition tolower :: "char \<Rightarrow> char" where
  "tolower c =
     (case map_of (zip ''ABCDEFGHIJKLMNOPQRSTUVWXYZ'' ''abcdefghijklmnopqrstuvwxyz'') c of
        None \<Rightarrow> c
      | Some l \<Rightarrow> l)"

definition is_nchar :: "char \<Rightarrow> bool" where
  \<comment> \<open>the characters of an \<^verbatim>\<open>n-char-sequence\<close>: digits, letters and the underscore\<close>
  "is_nchar c = (isdigit c \<or> isupper c \<or> islower c \<or> c = CHR ''_'')"

definition xdigit_val :: "char \<Rightarrow> nat" where
  "xdigit_val c =
     (if isdigit c then of_char c - of_char CHR ''0''
      else if islower c then of_char c - of_char CHR ''a'' + 10
      else of_char c - of_char CHR ''A'' + 10)"

definition digits_val :: "nat \<Rightarrow> string \<Rightarrow> nat" where
  \<comment> \<open>the number a digit sequence denotes in the given base\<close>
  "digits_val base ds = foldl (\<lambda>a c. a * base + xdigit_val c) 0 ds"

definition ci_prefix :: "string \<Rightarrow> string \<Rightarrow> bool" where
  \<comment> \<open>\<open>s\<close> starts with the lower-case word \<open>p\<close>, ignoring case\<close>
  "ci_prefix p s = (length p \<le> length s \<and> map tolower (take (length p) s) = p)"

definition substr :: "string \<Rightarrow> nat \<Rightarrow> nat \<Rightarrow> string" where
  \<comment> \<open>\<^verbatim>\<open>s.substr(pos, n)\<close> for \<open>pos \<le> s.size()\<close>\<close>
  "substr s pos n = take n (drop pos s)"

section \<open>\<^verbatim>\<open>trim_ascii\<close>\<close>

text \<open>
  \<^verbatim>\<open>while (i < s.size() && isspace(s[i])) ++i;\<close> This loop occurs twice in the source: as
  the first loop of \<^verbatim>\<open>trim_ascii\<close> (from 0) and after \<^verbatim>\<open>std::stod\<close> in the validation
  (from \<^verbatim>\<open>idx\<close>). \<^verbatim>\<open>trim_ascii\<close> casts the byte to \<^verbatim>\<open>unsigned char\<close>, the validation
  passes the plain \<^verbatim>\<open>char\<close>; for a byte above \<^verbatim>\<open>0x7F\<close> the latter is outside the
  domain of \<^verbatim>\<open>isspace\<close>, and the model gives both calls the answer of the "C" locale,
  in which no such byte is white space.
\<close>

function skip_spaces :: "string \<Rightarrow> nat \<Rightarrow> nat" where
  "skip_spaces s i = (if i < length s \<and> isspace (s ! i) then skip_spaces s (i + 1) else i)"
  by pat_completeness auto
termination
  by (relation "measure (\<lambda>(s, i). length s - i)") auto

declare skip_spaces.simps [simp del]

text \<open>\<^verbatim>\<open>while (end > start && isspace(s[end])) --end;\<close>\<close>

fun back_spaces :: "string \<Rightarrow> nat \<Rightarrow> nat \<Rightarrow> nat" where
  "back_spaces s start 0 = 0"
| "back_spaces s start (Suc e) =
     (if Suc e > start \<and> isspace (s ! Suc e) then back_spaces s start e else Suc e)"

definition trim_ascii :: "string \<Rightarrow> string" where
  "trim_ascii s =
     (let start = skip_spaces s 0 in
      if start = length s then []
      else (let end = back_spaces s start (length s - 1)
            in substr s start (end - start + 1)))"

section \<open>\<^verbatim>\<open>std::stod\<close>\<close>

text \<open>
  \<^verbatim>\<open>std::stod(str, &idx)\<close> belongs to the C++ standard library, not to the program. It is
  modelled after its specification: it calls \<^verbatim>\<open>strtod(str.c_str(), &end)\<close>, throws
  \<^verbatim>\<open>std::invalid_argument\<close> if no conversion was performed, throws
  \<^verbatim>\<open>std::out_of_range\<close> if \<^verbatim>\<open>strtod\<close> set \<^verbatim>\<open>errno\<close> to \<^verbatim>\<open>ERANGE\<close>, and otherwise
  stores the number of characters consumed in \<^verbatim>\<open>idx\<close>. The program discards the
  \<^verbatim>\<open>double\<close> it returns, so the model returns only \<^verbatim>\<open>idx\<close>.

  \<^verbatim>\<open>strtod\<close> skips leading white space and then takes the longest prefix that is an
  optionally signed decimal floating constant (digits with an optional radix character
  and an optional \<^verbatim>\<open>e\<close> exponent), hexadecimal floating constant (\<^verbatim>\<open>0x\<close>, hexadecimal
  digits with an optional radix character and an optional \<^verbatim>\<open>p\<close> exponent),
  \<^verbatim>\<open>INF\<close> or \<^verbatim>\<open>INFINITY\<close>, or \<^verbatim>\<open>NAN\<close> or \<^verbatim>\<open>NAN(n-char-sequence)\<close>, the words in any
  case.
\<close>

datatype number = Finite rat | Infinite | NotANumber

definition scan_sign :: "string \<Rightarrow> nat" where
  "scan_sign s = (case s of [] \<Rightarrow> 0 | c # _ \<Rightarrow> if c = CHR ''+'' \<or> c = CHR ''-'' then 1 else 0)"

definition scan_mantissa :: "(char \<Rightarrow> bool) \<Rightarrow> string \<Rightarrow> (string \<times> string \<times> nat) option" where
  \<comment> \<open>digits with an optional radix character, at least one digit: the digits before
      the radix character, those after it, and the number of characters taken\<close>
  "scan_mantissa dig s =
     (let ip = takeWhile dig s in
      case drop (length ip) s of
        [] \<Rightarrow> if ip = [] then None else Some (ip, [], length ip)
      | c # r \<Rightarrow>
          if c = CHR ''.'' then
            (let fp = takeWhile dig r in
             if ip = [] \<and> fp = [] then None else Some (ip, fp, length ip + 1 + length fp))
          else if ip = [] then None else Some (ip, [], length ip))"

definition scan_exponent :: "char \<Rightarrow> string \<Rightarrow> int \<times> nat" where
  \<comment> \<open>an optional exponent part: the mark, an optional sign, at least one decimal digit;
      its value and the number of characters taken (0 if there is no exponent part)\<close>
  "scan_exponent mark s =
     (case s of
        [] \<Rightarrow> (0, 0)
      | c # r \<Rightarrow>
          if tolower c \<noteq> mark then (0, 0)
          else (let k = scan_sign r; ds = takeWhile isdigit (drop k r) in
                if ds = [] then (0, 0)
                else ((if k = 1 \<and> hd r = CHR ''-'' then - int (digits_val 10 ds)
                       else int (digits_val 10 ds)),
                      1 + k + length ds)))"

definition scale :: "nat \<Rightarrow> nat \<Rightarrow> int \<Rightarrow> rat" where
  \<comment> \<open>\<open>m * b ^ e\<close> for an integer exponent\<close>
  "scale m b e = (if 0 \<le> e then of_nat m * of_nat b ^ nat e else of_nat m / of_nat b ^ nat (- e))"

definition scan_decimal :: "string \<Rightarrow> (nat \<times> number) option" where
  "scan_decimal s =
     (case scan_mantissa isdigit s of
        None \<Rightarrow> None
      | Some (ip, fp, n) \<Rightarrow>
          (let (e, k) = scan_exponent CHR ''e'' (drop n s)
           in Some (n + k, Finite (scale (digits_val 10 (ip @ fp)) 10 (e - int (length fp))))))"

definition scan_hex :: "string \<Rightarrow> (nat \<times> number) option" where
  "scan_hex s =
     (if ci_prefix ''0x'' s then
        (case scan_mantissa isxdigit (drop 2 s) of
           None \<Rightarrow> None
         | Some (ip, fp, n) \<Rightarrow>
             (let (e, k) = scan_exponent CHR ''p'' (drop (2 + n) s)
              in Some (2 + n + k,
                       Finite (scale (digits_val 16 (ip @ fp)) 2 (e - 4 * int (length fp))))))
      else None)"

definition scan_inf :: "string \<Rightarrow> (nat \<times> number) option" where
  "scan_inf s =
     (if ci_prefix ''infinity'' s then Some (8, Infinite)
      else if ci_prefix ''inf'' s then Some (3, Infinite)
      else None)"

definition scan_nan :: "string \<Rightarrow> (nat \<times> number) option" where
  "scan_nan s =
     (if ci_prefix ''nan'' s then
        (case drop 3 s of
           [] \<Rightarrow> Some (3, NotANumber)
         | c # r \<Rightarrow>
             if c = CHR ''('' then
               (let ns = takeWhile is_nchar r in
                case drop (length ns) r of
                  [] \<Rightarrow> Some (3, NotANumber)
                | d # _ \<Rightarrow> if d = CHR '')'' then Some (3 + 1 + length ns + 1, NotANumber)
                           else Some (3, NotANumber))
             else Some (3, NotANumber))
      else None)"

definition scan_subject :: "string \<Rightarrow> (nat \<times> number) option" where
  \<comment> \<open>the subject sequence: its length and the magnitude it denotes. A hexadecimal
      constant is tried first: where it matches it is longer than the decimal match,
      which stops at the \<^verbatim>\<open>x\<close>.\<close>
  "scan_subject s =
     (let k = scan_sign s; r = drop k s in
      case (case scan_hex r of
              Some x \<Rightarrow> Some x
            | None \<Rightarrow>
                (case scan_decimal r of
                   Some x \<Rightarrow> Some x
                 | None \<Rightarrow> (case scan_inf r of Some x \<Rightarrow> Some x | None \<Rightarrow> scan_nan r))) of
        None \<Rightarrow> None
      | Some (n, v) \<Rightarrow> Some (k + n, v))"

text \<open>
  The range error. The subject's exact value is rounded to an IEEE 754 binary64
  \<^verbatim>\<open>double\<close> (round to nearest, ties to even): it overflows, and \<^verbatim>\<open>errno\<close> becomes
  \<^verbatim>\<open>ERANGE\<close>, from \<open>2^1024 - 2^970\<close> on (half an ulp above \<^verbatim>\<open>DBL_MAX\<close>). Below
  \<^verbatim>\<open>DBL_MIN\<close> \<open>= 2^-1022\<close> the result underflows, and whether \<^verbatim>\<open>errno\<close> becomes
  \<^verbatim>\<open>ERANGE\<close> is implementation-defined (C11 7.22.1.3): that decision is the parameter
  \<open>uflow\<close>, consulted for non-zero magnitudes below \<^verbatim>\<open>DBL_MIN\<close> only.
\<close>

definition DBL_OVERFLOW :: rat where
  "DBL_OVERFLOW = 2 ^ 1024 - 2 ^ 970"

definition DBL_MIN :: rat where
  "DBL_MIN = 1 / 2 ^ 1022"

definition range_error :: "(rat \<Rightarrow> bool) \<Rightarrow> number \<Rightarrow> bool" where
  "range_error uflow v =
     (case v of
        Finite m \<Rightarrow>
          if DBL_OVERFLOW \<le> m then True
          else if 0 < m \<and> m < DBL_MIN then uflow m
          else False
      | Infinite \<Rightarrow> False
      | NotANumber \<Rightarrow> False)"

definition c_str :: "string \<Rightarrow> string" where
  \<comment> \<open>what a C function sees of \<^verbatim>\<open>str.c_str()\<close>: the bytes before the first NUL\<close>
  "c_str s = takeWhile (\<lambda>c. c \<noteq> CHR 0x00) s"

definition strtod :: "(rat \<Rightarrow> bool) \<Rightarrow> string \<Rightarrow> nat \<times> bool" where
  \<comment> \<open>the offset of the end pointer (0 if no conversion was performed) and whether
      \<^verbatim>\<open>errno\<close> was set to \<^verbatim>\<open>ERANGE\<close>\<close>
  "strtod uflow s =
     (let w = length (takeWhile isspace s) in
      case scan_subject (drop w s) of
        None \<Rightarrow> (0, False)
      | Some (n, v) \<Rightarrow> (w + n, range_error uflow v))"

datatype stod_exception = invalid_argument | out_of_range

definition stod :: "(rat \<Rightarrow> bool) \<Rightarrow> string \<Rightarrow> stod_exception + nat" where
  "stod uflow str =
     (let (eptr, erange) = strtod uflow (c_str str) in
      if eptr = 0 then Inl invalid_argument
      else if erange then Inl out_of_range
      else Inr eptr)"

text \<open>
  The validation of lines 158 to 165: \<^verbatim>\<open>valid\<close> stays true if \<^verbatim>\<open>std::stod\<close> does not
  throw and, after skipping white space from \<^verbatim>\<open>idx\<close>, the whole of \<^verbatim>\<open>trimmed\<close> is
  consumed.
\<close>

definition valid_numeric :: "(rat \<Rightarrow> bool) \<Rightarrow> string \<Rightarrow> bool" where
  "valid_numeric uflow trimmed =
     (case stod uflow trimmed of
        Inl _ \<Rightarrow> False
      | Inr idx \<Rightarrow> skip_spaces trimmed idx = length trimmed)"

section \<open>The environment of the process\<close>

text \<open>
  What the Win32 calls answer is not decided by the program; it is collected in a record
  that the model takes as a parameter. \<^verbatim>\<open>DWORD\<close> and \<^verbatim>\<open>LONG\<close> results are 32-bit
  words (only compared with constants), \<^verbatim>\<open>wchar_t\<close> is a 16-bit word.
\<close>

type_synonym wstring = "16 word list"

datatype code_page = CP_UTF8 | CP_ACP

datatype read_result =
    ReadFailed "32 word"  \<comment> \<open>\<^verbatim>\<open>ReadFile\<close> returned \<^verbatim>\<open>FALSE\<close>; the value of \<^verbatim>\<open>GetLastError()\<close>\<close>
  | ReadOk string         \<comment> \<open>\<^verbatim>\<open>ReadFile\<close> returned \<^verbatim>\<open>TRUE\<close>; the \<^verbatim>\<open>bytesRead\<close> bytes it stored
                               (at most 256, the size of \<^verbatim>\<open>tempBuf\<close>; no property below
                               depends on the bound)\<close>

record env =
  uflow_erange :: "rat \<Rightarrow> bool"
    \<comment> \<open>whether \<^verbatim>\<open>strtod\<close> reports \<^verbatim>\<open>ERANGE\<close> for a magnitude that underflows\<close>
  mb_to_wc :: "code_page \<Rightarrow> string \<Rightarrow> wstring option"
    \<comment> \<open>\<^verbatim>\<open>MultiByteToWideChar(cp, 0, ...)\<close>: the converted text, \<open>None\<close> if it returns 0\<close>
  create_file_ok :: bool
    \<comment> \<open>\<^verbatim>\<open>CreateFileW\<close> returned a handle other than \<^verbatim>\<open>INVALID_HANDLE_VALUE\<close>\<close>
  get_comm_state_ok :: bool
  set_comm_state_ok :: bool
  set_comm_timeouts_ok :: bool
    \<comment> \<open>what \<^verbatim>\<open>SetCommTimeouts\<close> returns; line 95 does not look at it\<close>
  reg_create_key_result :: "32 word"
  name_write_result :: "32 word"
    \<comment> \<open>the result of \<^verbatim>\<open>RegSetValueExW\<close> for the entry \<^verbatim>\<open>Name\<close>\<close>
  value_write_result :: "nat \<Rightarrow> 32 word"
    \<comment> \<open>the result of the \<open>n\<close>-th call (from 0) of \<^verbatim>\<open>RegSetValueExW\<close> for the entry
        \<^verbatim>\<open>Value\<close>\<close>

definition ERROR_SUCCESS :: "32 word" where
  "ERROR_SUCCESS = 0"

definition ERROR_OPERATION_ABORTED :: "32 word" where
  "ERROR_OPERATION_ABORTED = 995"

definition NL :: char where
  "NL = CHR 0x0A"

definition CR :: char where
  "CR = CHR 0x0D"

section \<open>\<^verbatim>\<open>utf8_to_wstring\<close>\<close>

definition wc_needed :: "env \<Rightarrow> code_page \<Rightarrow> string \<Rightarrow> nat" where
  \<comment> \<open>\<^verbatim>\<open>MultiByteToWideChar(cp, 0, in.c_str(), (int)in.size(), NULL, 0)\<close>\<close>
  "wc_needed env cp inp = (case mb_to_wc env cp inp of None \<Rightarrow> 0 | Some w \<Rightarrow> length w)"

definition utf8_to_wstring :: "env \<Rightarrow> string \<Rightarrow> wstring" where
  \<comment> \<open>\<^verbatim>\<open>out\<close> is resized to \<^verbatim>\<open>needed\<close> zero units and the last call, always with
      \<^verbatim>\<open>CP_UTF8\<close>, overwrites it where it succeeds\<close>
  "utf8_to_wstring env inp =
     (if inp = [] then []
      else if wc_needed env CP_UTF8 inp = 0 then
        (if wc_needed env CP_ACP inp = 0 then []
         else replicate (wc_needed env CP_ACP inp) 0)
      else (case mb_to_wc env CP_UTF8 inp of None \<Rightarrow> [] | Some w \<Rightarrow> w))"

section \<open>The state of the read loop and what the process does\<close>

datatype api =
    SetConsoleCtrlHandler
  | CreateFileW
  | GetCommState
  | SetCommState
  | SetCommTimeouts
  | RegCreateKeyExW
  | RegSetValueExW_Name
  | RegSetValueExW_Value wstring
  | ReadFile
  | Sleep nat
  | RegCloseKey
  | CloseHandle

datatype message =
    Opening_serial_port
  | Cannot_open_serial_port
  | GetCommState_failed
  | SetCommState_failed
  | Could_not_create_registry_key "32 word"
  | Failed_to_write_Name "32 word"
  | Registry_sensor_key_ready
  | ReadFile_failed "32 word"
  | Ignored_non_numeric_line string
  | Failed_to_write_Value "32 word"
  | Wrote_Value wstring
  | Shutting_down
  | Exit_complete

datatype event = Call api | Print message

record state =
  readBuffer :: string
  lastValueWritten :: string
  trace :: "event list"  \<comment> \<open>the calls made and the lines printed so far, in order\<close>

definition emit :: "event list \<Rightarrow> state \<Rightarrow> state" where
  "emit es st = st\<lparr>trace := trace st @ es\<rparr>"

definition value_writes :: "event list \<Rightarrow> wstring list" where
  \<comment> \<open>the values passed to \<^verbatim>\<open>RegSetValueExW\<close> for the entry \<^verbatim>\<open>Value\<close>, in order\<close>
  "value_writes t = concat (map (\<lambda>e. case e of Call (RegSetValueExW_Value w) \<Rightarrow> [w] | _ \<Rightarrow> []) t)"

section \<open>The body of the inner loop, lines 154 to 185\<close>

text \<open>
  Lines 154 to 170 decide what a line is: skipped without a word when nothing is left
  after trimming, rejected (and reported) when it is not numeric, a reading otherwise.
  The text carried on is \<^verbatim>\<open>trimmed\<close>.
\<close>

datatype verdict = Skipped | Rejected string | Reading string

definition validate :: "(rat \<Rightarrow> bool) \<Rightarrow> string \<Rightarrow> verdict" where
  "validate uflow line =
     (let trimmed = trim_ascii line in
      if trimmed = [] then Skipped
      else if \<not> valid_numeric uflow trimmed then Rejected trimmed
      else Reading trimmed)"

text \<open>
  Lines 172 to 185: \<^verbatim>\<open>lastValueWritten\<close> is assigned before \<^verbatim>\<open>RegSetValueExW\<close> is
  called, and the result of the call only selects the line printed.
\<close>

definition admit :: "env \<Rightarrow> string \<Rightarrow> state \<Rightarrow> state" where
  "admit env trimmed st =
     (if trimmed \<noteq> lastValueWritten st then
        (let wvalue = utf8_to_wstring env trimmed;
             wres = value_write_result env (length (value_writes (trace st)))
         in emit [Call (RegSetValueExW_Value wvalue),
                  Print (if wres \<noteq> ERROR_SUCCESS then Failed_to_write_Value wres
                         else Wrote_Value wvalue)]
              (st\<lparr>lastValueWritten := trimmed\<rparr>))
      else st)"

definition process_line :: "env \<Rightarrow> string \<Rightarrow> state \<Rightarrow> state" where
  "process_line env line st =
     (case validate (uflow_erange env) line of
        Skipped \<Rightarrow> st
      | Rejected trimmed \<Rightarrow> emit [Print (Ignored_non_numeric_line trimmed)] st
      | Reading trimmed \<Rightarrow> admit env trimmed st)"

section \<open>The inner loop, lines 150 to 186\<close>

fun find_char :: "string \<Rightarrow> char \<Rightarrow> nat option" where
  \<comment> \<open>\<^verbatim>\<open>s.find(c)\<close>, \<open>None\<close> for \<^verbatim>\<open>npos\<close>\<close>
  "find_char [] c = None"
| "find_char (x # xs) c = (if x = c then Some 0 else map_option Suc (find_char xs c))"

function drain :: "env \<Rightarrow> state \<Rightarrow> state" where
  "drain env st =
     (case find_char (readBuffer st) NL of
        None \<Rightarrow> st
      | Some pos \<Rightarrow>
          (let line = substr (readBuffer st) 0 (pos + 1);
               st1 = st\<lparr>readBuffer := drop (pos + 1) (readBuffer st)\<rparr>
           in drain env (process_line env line st1)))"
  by pat_completeness auto
termination
proof (relation "measure (\<lambda>(env, st). length (readBuffer st))", goal_cases)
  case 1
  show ?case by simp
next
  case (2 env st pos line st1)
  have "readBuffer st \<noteq> []"
    using 2(1) by (cases "readBuffer st") simp_all
  moreover have "readBuffer (process_line env line st1) = readBuffer st1"
    by (simp add: process_line_def admit_def emit_def Let_def split: verdict.split)
  ultimately show ?case
    using 2(3) by simp
qed

declare drain.simps [simp del]

section \<open>The read loop, lines 131 to 187\<close>

definition iteration :: "env \<Rightarrow> read_result \<Rightarrow> state \<Rightarrow> state" where
  "iteration env r st =
     (let st0 = emit [Call ReadFile] st in
      case r of
        ReadFailed err \<Rightarrow>
          emit ((if err \<noteq> ERROR_OPERATION_ABORTED then [Print (ReadFile_failed err)] else [])
                @ [Call (Sleep 50)]) st0
      | ReadOk bytes \<Rightarrow>
          if bytes = [] then emit [Call (Sleep 10)] st0
          else drain env (st0\<lparr>readBuffer := readBuffer st0 @ bytes\<rparr>))"

text \<open>
  \<^verbatim>\<open>while (g_running.load())\<close>: the console handler clears the flag from outside, so the
  number of iterations is the environment's choice. A run of the loop is given by the
  results of the \<^verbatim>\<open>ReadFile\<close> calls of the iterations that found the flag set; after
  the last of them the flag is clear.
\<close>

definition run_loop :: "env \<Rightarrow> read_result list \<Rightarrow> state \<Rightarrow> state" where
  "run_loop env rs st = foldl (\<lambda>s r. iteration env r s) st rs"

definition loop_entry :: "event list \<Rightarrow> state" where
  \<comment> \<open>lines 125 to 129: both strings start empty\<close>
  "loop_entry t = \<lparr>readBuffer = [], lastValueWritten = [], trace = t\<rparr>"

section \<open>\<^verbatim>\<open>wmain\<close>\<close>

definition wmain :: "env \<Rightarrow> read_result list \<Rightarrow> int \<times> event list" where
  \<comment> \<open>the exit status and everything the process did\<close>
  "wmain env rs =
     (let t0 = [Call SetConsoleCtrlHandler, Print Opening_serial_port, Call CreateFileW] in
      if \<not> create_file_ok env then (1, t0 @ [Print Cannot_open_serial_port])
      else
        (let t1 = t0 @ [Call GetCommState] in
         if \<not> get_comm_state_ok env then (1, t1 @ [Print GetCommState_failed, Call CloseHandle])
         else
           (let t2 = t1 @ [Call SetCommState] in
            if \<not> set_comm_state_ok env
            then (1, t2 @ [Print SetCommState_failed, Call CloseHandle])
            else
              (let t3 = t2 @ [Call SetCommTimeouts, Call RegCreateKeyExW] in
               if reg_create_key_result env \<noteq> ERROR_SUCCESS
               then (1, t3 @ [Print (Could_not_create_registry_key (reg_create_key_result env)),
                              Call CloseHandle])
               else
                 (let t4 = t3 @ [Call RegSetValueExW_Name]
                             @ (if name_write_result env \<noteq> ERROR_SUCCESS
                                then [Print (Failed_to_write_Name (name_write_result env))]
                                else [])
                             @ [Print Registry_sensor_key_ready];
                      st = run_loop env rs (loop_entry t4)
                  in (0, trace st @ [Print Shutting_down, Call RegCloseKey, Call CloseHandle,
                                     Print Exit_complete]))))))"

section \<open>Splitting a text on a separator\<close>

text \<open>
  The reference that the line assembly is compared with: the segments between the
  occurrences of the separator, the last one being what follows the last separator.
\<close>

fun split_on :: "char \<Rightarrow> string \<Rightarrow> string list" where
  "split_on c [] = [[]]"
| "split_on c (x # xs) =
     (if x = c then [] # split_on c xs
      else (x # hd (split_on c xs)) # tl (split_on c xs))"

definition complete_lines :: "string \<Rightarrow> string list" where
  \<comment> \<open>the segments that a newline ends, each with its newline\<close>
  "complete_lines s = map (\<lambda>seg. seg @ [NL]) (butlast (split_on NL s))"

definition pending :: "string \<Rightarrow> string" where
  \<comment> \<open>the segment after the last newline\<close>
  "pending s = last (split_on NL s)"

section \<open>Reading a trace\<close>

fun is_read_event :: "event \<Rightarrow> bool" where
  \<comment> \<open>what an iteration does outside its inner loop: the \<^verbatim>\<open>ReadFile\<close> call, the report
      of its failure and the pause\<close>
  "is_read_event (Call ReadFile) = True"
| "is_read_event (Call (Sleep n)) = True"
| "is_read_event (Print (ReadFile_failed err)) = True"
| "is_read_event _ = False"

definition line_events :: "event list \<Rightarrow> event list" where
  \<comment> \<open>what is left of a trace without these: the events of the inner loop\<close>
  "line_events t = filter (\<lambda>e. \<not> is_read_event e) t"

definition chunks_of :: "read_result list \<Rightarrow> string list" where
  \<comment> \<open>the byte chunks that a sequence of \<^verbatim>\<open>ReadFile\<close> results delivers\<close>
  "chunks_of rs = concat (map (\<lambda>r. case r of ReadFailed err \<Rightarrow> [] | ReadOk bytes \<Rightarrow> [bytes]) rs)"

section \<open>The texts that are numeric literals\<close>

text \<open>
  A decimal numeric literal, in words: an optional sign; decimal digits with an optional
  decimal point, at least one digit in all; an optional exponent, which is the letter
  \<^verbatim>\<open>e\<close> in either case, an optional sign and at least one decimal digit.

  The other forms that \<^verbatim>\<open>strtod\<close> converts are written in the same way: the
  hexadecimal floating constant (\<^verbatim>\<open>0x\<close>, hexadecimal digits with an optional point, an
  optional exponent marked by \<^verbatim>\<open>p\<close>), the words \<^verbatim>\<open>inf\<close> and \<^verbatim>\<open>infinity\<close>, and the
  word \<^verbatim>\<open>nan\<close> with an optional sequence of letters, digits and underscores in
  parentheses; letters in either case.
\<close>

definition is_sign :: "string \<Rightarrow> bool" where
  "is_sign sg = (sg = [] \<or> sg = ''+'' \<or> sg = ''-'')"

definition is_mantissa :: "(char \<Rightarrow> bool) \<Rightarrow> string \<Rightarrow> bool" where
  "is_mantissa dig m =
     (\<exists>ip fp. list_all dig ip \<and> list_all dig fp \<and>
        ((m = ip \<and> ip \<noteq> []) \<or> (m = ip @ ''.'' @ fp \<and> (ip \<noteq> [] \<or> fp \<noteq> []))))"

definition is_exponent :: "char \<Rightarrow> string \<Rightarrow> bool" where
  "is_exponent mark e =
     (e = [] \<or>
      (\<exists>c sg ds. tolower c = mark \<and> is_sign sg \<and> list_all isdigit ds \<and> ds \<noteq> [] \<and>
         e = c # sg @ ds))"

definition is_decimal_body :: "string \<Rightarrow> bool" where
  "is_decimal_body b =
     (\<exists>m e. is_mantissa isdigit m \<and> is_exponent CHR ''e'' e \<and> b = m @ e)"

definition is_hex_body :: "string \<Rightarrow> bool" where
  "is_hex_body b =
     (\<exists>x m e. map tolower x = ''0x'' \<and> is_mantissa isxdigit m \<and> is_exponent CHR ''p'' e \<and>
        b = x @ m @ e)"

definition is_inf_body :: "string \<Rightarrow> bool" where
  "is_inf_body b = (map tolower b = ''inf'' \<or> map tolower b = ''infinity'')"

definition is_nan_body :: "string \<Rightarrow> bool" where
  "is_nan_body b =
     (\<exists>w ns. map tolower w = ''nan'' \<and> list_all is_nchar ns \<and>
        (b = w \<or> b = w @ ''('' @ ns @ '')''))"

definition is_decimal_literal :: "string \<Rightarrow> bool" where
  "is_decimal_literal s = (\<exists>sg b. is_sign sg \<and> is_decimal_body b \<and> s = sg @ b)"

definition decimal_char :: "char \<Rightarrow> bool" where
  \<comment> \<open>the characters that occur in decimal numeric literals\<close>
  "decimal_char c = (c \<in> set ''0123456789.eE+-'')"

definition is_stod_literal :: "string \<Rightarrow> bool" where
  "is_stod_literal s =
     (\<exists>sg b. is_sign sg \<and>
        (is_decimal_body b \<or> is_hex_body b \<or> is_inf_body b \<or> is_nan_body b) \<and>
        s = sg @ b)"

definition stod_value :: "string \<Rightarrow> number" where
  \<comment> \<open>the magnitude that the conversion reads off a text\<close>
  "stod_value s = (case scan_subject s of None \<Rightarrow> NotANumber | Some (n, v) \<Rightarrow> v)"

section \<open>Some concrete environments\<close>

text \<open>
  In \<open>quiet_env\<close> every call succeeds, \<^verbatim>\<open>strtod\<close> reports every underflow and
  \<^verbatim>\<open>MultiByteToWideChar\<close> widens each byte; in \<open>failing_sink_env\<close> every write of the
  entry \<^verbatim>\<open>Value\<close> fails with \<^verbatim>\<open>ERROR_ACCESS_DENIED\<close> (5). They serve as concrete
  inputs.
\<close>

definition quiet_env :: env where
  "quiet_env =
     \<lparr>uflow_erange = (\<lambda>m. True),
      mb_to_wc = (\<lambda>cp s. Some (map of_char s)),
      create_file_ok = True,
      get_comm_state_ok = True,
      set_comm_state_ok = True,
      set_comm_timeouts_ok = True,
      reg_create_key_result = 0,
      name_write_result = 0,
      value_write_result = (\<lambda>n. 0)\<rparr>"

definition failing_sink_env :: env where
  "failing_sink_env = quiet_env\<lparr>value_write_result := (\<lambda>n. 5)\<rparr>"

definition failing_timeouts_env :: env where
  \<comment> \<open>\<^verbatim>\<open>SetCommTimeouts\<close> returns \<^verbatim>\<open>FALSE\<close>, every other call succeeds\<close>
  "failing_timeouts_env = quiet_env\<lparr>set_comm_timeouts_ok := False\<rparr>"

section \<open>What \<^verbatim>\<open>trim_ascii\<close> computes\<close>

lemma skip_spaces_eq:
  "i \<le> length s \<Longrightarrow> skip_spaces s i = i + length (takeWhile isspace (drop i s))"
proof (induction s i rule: skip_spaces.induct)
  case (1 s i)
  show ?case
  proof (cases "i < length s")
    case True
    then have d: "drop i s = s ! i # drop (Suc i) s"
      by (simp add: Cons_nth_drop_Suc)
    show ?thesis
    proof (cases "isspace (s ! i)")
      case sp: True
      with True 1 have "skip_spaces s (i + 1) = i + 1 + length (takeWhile isspace (drop (i + 1) s))"
        by simp
      with True sp d show ?thesis
        by (simp add: skip_spaces.simps [of s i])
    next
      case False
      with True d show ?thesis
        by (simp add: skip_spaces.simps [of s i])
    qed
  next
    case False
    have "skip_spaces s i = i"
      by (subst skip_spaces.simps) (use False in simp)
    with False 1 show ?thesis
      by simp
  qed
qed

lemma back_spaces_eq:
  "e < length s \<Longrightarrow> start \<le> e \<Longrightarrow> \<not> isspace (s ! start) \<Longrightarrow>
   back_spaces s start e = e - length (takeWhile isspace (rev (take (Suc e) s)))"
proof (induction e)
  case 0
  then show ?case
    by (cases s) auto
next
  case (Suc e)
  have t: "take (Suc (Suc e)) s = take (Suc e) s @ [s ! Suc e]"
    using Suc.prems(1) by (simp add: take_Suc_conv_app_nth)
  show ?case
  proof (cases "isspace (s ! Suc e)")
    case True
    with Suc.prems have "start \<le> e"
      by (metis le_SucE)
    with Suc True t show ?thesis
      by simp
  next
    case False
    with t show ?thesis by simp
  qed
qed

lemma trim_ascii_eq: "trim_ascii s = rev (dropWhile isspace (rev (dropWhile isspace s)))"
proof -
  define a where "a = takeWhile isspace s"
  define m where "m = dropWhile isspace s"
  have s: "s = a @ m" by (simp add: a_def m_def)
  have st: "skip_spaces s 0 = length a"
    by (simp add: skip_spaces_eq a_def)
  show ?thesis
  proof (cases "m = []")
    case True
    with s have "length a = length s" by simp
    with st have "trim_ascii s = []"
      by (simp add: trim_ascii_def)
    moreover have "dropWhile isspace s = []"
      using True by (simp add: m_def)
    ultimately show ?thesis by (simp only: rev.simps dropWhile.simps)
  next
    case False
    then have hd: "\<not> isspace (hd m)"
      unfolding m_def by (metis hd_dropWhile)
    have nth: "s ! length a = hd m"
      using False s by (simp add: nth_append hd_conv_nth)
    have lt: "length a < length s" using False s by (metis length_append less_add_same_cancel1 length_greater_0_conv)
    define b where "b = takeWhile isspace (rev m)"
    have tw: "takeWhile isspace (rev s) = b"
    proof -
      from hd False obtain x where "x \<in> set (rev m)" "\<not> isspace x"
        by (metis hd_in_set set_rev)
      then show ?thesis unfolding b_def s rev_append
        by (rule takeWhile_append1)
    qed
    have e: "back_spaces s (length a) (length s - 1) = length s - 1 - length b"
      using back_spaces_eq [of "length s - 1" s "length a"] lt hd nth tw by simp
    define d where "d = dropWhile isspace (rev m)"
    have dpos: "0 < length d"
      unfolding d_def using hd False
      by (metis dropWhile_eq_Nil_conv hd_in_set set_rev length_greater_0_conv)
    have lm: "length m = length b + length d"
      unfolding b_def d_def by (metis length_append takeWhile_dropWhile_id length_rev)
    have ls: "length s = length a + length m"
      using s by simp
    have "rev m = b @ d" by (simp add: b_def d_def)
    then have m2: "m = rev d @ rev b"
      by (metis rev_append rev_rev_ident)
    have len: "length s - 1 - length b - length a + 1 = length (rev d)"
      using dpos lm ls by simp
    have "trim_ascii s = take (length s - 1 - length b - length a + 1) m"
      using st lt e s by (simp add: trim_ascii_def substr_def)
    also have "\<dots> = rev d"
      unfolding len using m2 by (metis append_eq_conv_conj)
    finally show ?thesis by (simp add: m_def d_def)
  qed
qed


lemma trim_ascii_Nil_iff: "trim_ascii s = [] \<longleftrightarrow> (\<forall>c\<in>set s. isspace c)"
proof
  assume "trim_ascii s = []"
  then have "dropWhile isspace (rev (dropWhile isspace s)) = []"
    by (simp add: trim_ascii_eq)
  then have a: "\<forall>c\<in>set (dropWhile isspace s). isspace c"
    by (simp add: dropWhile_eq_Nil_conv)
  show "\<forall>c\<in>set s. isspace c"
  proof (cases "dropWhile isspace s")
    case Nil
    then show ?thesis by (simp add: dropWhile_eq_Nil_conv)
  next
    case (Cons x xs)
    then have "\<not> isspace x" by (metis hd_dropWhile list.sel(1) list.distinct(1))
    with a Cons show ?thesis by simp
  qed
next
  assume "\<forall>c\<in>set s. isspace c"
  then have "dropWhile isspace s = []"
    by (simp add: dropWhile_eq_Nil_conv)
  then show "trim_ascii s = []"
    by (simp only: trim_ascii_eq rev.simps dropWhile.simps)
qed

lemma trim_ascii_snoc_space:
  assumes "isspace c"
  shows "trim_ascii (s @ [c]) = trim_ascii s"
proof (cases "\<forall>x\<in>set s. isspace x")
  case True
  with assms have "\<forall>x\<in>set (s @ [c]). isspace x" by simp
  then have "trim_ascii (s @ [c]) = []"
    by (simp only: trim_ascii_Nil_iff)
  moreover from True have "trim_ascii s = []"
    by (simp only: trim_ascii_Nil_iff)
  ultimately show ?thesis by simp
next
  case False
  then have "dropWhile isspace (s @ [c]) = dropWhile isspace s @ [c]"
    by (metis dropWhile_append1)
  with assms show ?thesis
    by (simp add: trim_ascii_eq)
qed

lemma trim_ascii_last: "trim_ascii s \<noteq> [] \<Longrightarrow> \<not> isspace (last (trim_ascii s))"
proof -
  assume ne: "trim_ascii s \<noteq> []"
  let ?d = "dropWhile isspace (rev (dropWhile isspace s))"
  from ne have "?d \<noteq> []" by (simp add: trim_ascii_eq)
  then have "\<not> isspace (hd ?d)" by (rule hd_dropWhile)
  moreover have "last (trim_ascii s) = hd ?d"
    using \<open>?d \<noteq> []\<close> by (simp add: trim_ascii_eq last_rev)
  ultimately show ?thesis by simp
qed

section \<open>The line buffer\<close>

lemma find_char_None_iff: "find_char s c = None \<longleftrightarrow> c \<notin> set s"
  by (induction s) auto

lemma readBuffer_process_line [simp]: "readBuffer (process_line env line st) = readBuffer st"
  by (simp add: process_line_def admit_def emit_def Let_def split: verdict.split)

lemma drain_no_newline: "NL \<notin> set (readBuffer (drain env st))"
proof (induction env st rule: drain.induct)
  case (1 env st)
  show ?case
  proof (cases "find_char (readBuffer st) NL")
    case None
    then have "NL \<notin> set (readBuffer st)"
      by (simp add: find_char_None_iff)
    then show ?thesis
      by (subst drain.simps) (simp add: None)
  next
    case (Some pos)
    have "NL \<notin> set (readBuffer (drain env (process_line env (substr (readBuffer st) 0 (pos + 1))
            (st\<lparr>readBuffer := drop (pos + 1) (readBuffer st)\<rparr>))))"
      using 1 [OF Some refl refl] .
    then show ?thesis
      by (subst drain.simps) (simp add: Some Let_def)
  qed
qed

lemma iteration_no_newline:
  "NL \<notin> set (readBuffer st) \<Longrightarrow> NL \<notin> set (readBuffer (iteration env r st))"
  by (cases r) (simp_all add: iteration_def emit_def drain_no_newline Let_def)

section \<open>Lines of white space\<close>

text \<open>
  C7: a line that consists of white space only (its terminator included) yields no
  reading and no report: the validation answers \<open>Skipped\<close>, and the body of the loop
  leaves the state, with the trace of everything printed and called, as it was.
\<close>

theorem whitespace_line_skipped:
  "\<forall>c\<in>set line. isspace c \<Longrightarrow>
   validate uflow line = Skipped \<and> process_line env line st = st"
  by (simp add: validate_def process_line_def trim_ascii_Nil_iff)

theorem whitespace_line_skipped_witness:
  "validate (uflow_erange quiet_env) '' \<newline>'' = Skipped \<and>
   process_line quiet_env '' \<newline>'' (loop_entry []) = loop_entry []"
proof -
  have h: "\<forall>c\<in>set '' \<newline>''. isspace c"
    by (simp add: isspace_def)
  show ?thesis
    using whitespace_line_skipped [OF h] by blast
qed

section \<open>Line terminators\<close>

text \<open>
  C10: for every line body, the terminator \<^verbatim>\<open>\\r\\n\<close> gives the same verdict, with
  the same text, and the same effect of the loop body as the terminator \<^verbatim>\<open>\\n\<close>: the
  carriage return is trimmed away as white space.
\<close>

theorem crlf_same_as_lf:
  "validate uflow (body @ [CR, NL]) = validate uflow (body @ [NL]) \<and>
   process_line env (body @ [CR, NL]) st = process_line env (body @ [NL]) st"
proof -
  have "trim_ascii (body @ [CR, NL]) = trim_ascii ((body @ [CR]) @ [NL])"
    by simp
  also have "\<dots> = trim_ascii (body @ [CR])"
    by (rule trim_ascii_snoc_space) (simp add: isspace_def NL_def)
  also have "\<dots> = trim_ascii body"
    by (rule trim_ascii_snoc_space) (simp add: isspace_def CR_def)
  also have "\<dots> = trim_ascii (body @ [NL])"
    by (rule trim_ascii_snoc_space [symmetric]) (simp add: isspace_def NL_def)
  finally show ?thesis
    by (simp add: validate_def process_line_def)
qed

text \<open>
  C8: after any number of iterations of the read loop, that is at the start of every
  iteration, the line buffer holds no newline byte.
\<close>

theorem buffer_holds_no_newline:
  "NL \<notin> set (readBuffer (run_loop env rs (loop_entry t)))"
proof -
  have "NL \<notin> set (readBuffer st) \<Longrightarrow> NL \<notin> set (readBuffer (run_loop env rs st))" for st
    unfolding run_loop_def
    by (induction rs arbitrary: st) (simp_all add: iteration_no_newline)
  then show ?thesis
    by (simp add: loop_entry_def)
qed

section \<open>The change-detection gate\<close>

lemma value_writes_append [simp]: "value_writes (a @ b) = value_writes a @ value_writes b"
  by (simp add: value_writes_def)

lemma value_writes_Nil [simp]: "value_writes [] = []"
  by (simp add: value_writes_def)

lemma validate_Reading: "validate uflow line = Reading t \<Longrightarrow> t = trim_ascii line \<and> t \<noteq> []"
  by (auto simp: validate_def Let_def split: if_splits)

lemma value_writes_admit:
  "value_writes (trace (admit env t st)) =
   value_writes (trace st) @ (if t \<noteq> lastValueWritten st then [utf8_to_wstring env t] else [])"
  by (simp add: admit_def emit_def Let_def value_writes_def)

lemma lastValueWritten_admit [simp]: "lastValueWritten (admit env t st) = t"
  by (simp add: admit_def emit_def Let_def)

lemma admit_again [simp]: "admit env t (admit env t st) = admit env t st"
  by (simp add: admit_def [of env t "admit env t st"])

lemma process_line_Reading:
  "validate (uflow_erange env) line = Reading t \<Longrightarrow> process_line env line st = admit env t st"
  by (simp add: process_line_def)

lemma process_line_not_Reading:
  "\<forall>t. validate (uflow_erange env) line \<noteq> Reading t \<Longrightarrow>
   lastValueWritten (process_line env line st) = lastValueWritten st \<and>
   value_writes (trace (process_line env line st)) = value_writes (trace st)"
  by (cases "validate (uflow_erange env) line")
     (simp_all add: process_line_def emit_def value_writes_def)

lemma tl_remdups_adj_step:
  "tl (remdups_adj (L # t # xs)) = (if t \<noteq> L then [t] else []) @ tl (remdups_adj (t # xs))"
  by simp

lemma writes_of_readings:
  "\<forall>l\<in>set ls. \<exists>t. validate (uflow_erange env) l = Reading t \<Longrightarrow>
   value_writes (trace (foldl (\<lambda>s l. process_line env l s) st ls)) =
   value_writes (trace st)
     @ map (utf8_to_wstring env) (tl (remdups_adj (lastValueWritten st # map trim_ascii ls)))"
proof (induction ls arbitrary: st)
  case Nil
  show ?case by simp
next
  case (Cons l ls)
  from Cons.prems obtain t where t: "validate (uflow_erange env) l = Reading t"
    by auto
  then have tl: "trim_ascii l = t" using validate_Reading by blast
  have step: "process_line env l st = admit env t st"
    using t by (rule process_line_Reading)
  have rest: "\<forall>l\<in>set ls. \<exists>t. validate (uflow_erange env) l = Reading t"
    using Cons.prems by simp
  have "value_writes (trace (foldl (\<lambda>s l. process_line env l s) (admit env t st) ls)) =
        value_writes (trace (admit env t st))
          @ map (utf8_to_wstring env) (tl (remdups_adj (t # map trim_ascii ls)))"
    using Cons.IH [OF rest, of "admit env t st"] by simp
  then show ?case
    by (simp only: foldl_Cons step list.map tl tl_remdups_adj_step value_writes_admit
          map_append append_assoc)
       simp
qed

section \<open>Some concrete lines\<close>

lemma in_range: "DBL_MIN \<le> m \<Longrightarrow> m < DBL_OVERFLOW \<Longrightarrow> range_error u (Finite m) = False"
  by (simp add: range_error_def)

lemmas stod_unfold =
  valid_numeric_def stod_def strtod_def c_str_def isspace_def skip_spaces.simps
  in_range DBL_MIN_def DBL_OVERFLOW_def

lemma validate_10: "validate u ''10\<newline>'' = Reading ''10''"
proof -
  have t: "trim_ascii ''10\<newline>'' = ''10''" by code_simp
  have s: "scan_subject ''10'' = Some (2, Finite 10)" by code_simp
  have "valid_numeric u ''10''"
    by (simp add: stod_unfold s)
  then show ?thesis
    by (simp add: validate_def t)
qed

lemma validate_20: "validate u ''20\<newline>'' = Reading ''20''"
proof -
  have t: "trim_ascii ''20\<newline>'' = ''20''" by code_simp
  have s: "scan_subject ''20'' = Some (2, Finite 20)" by code_simp
  have "valid_numeric u ''20''"
    by (simp add: stod_unfold s)
  then show ?thesis
    by (simp add: validate_def t)
qed

section \<open>Writes to the sink\<close>

text \<open>
  C2: the gate writes exactly when the text of a reading differs from the last
  remembered text. For one reading: the values written grow by the reading's text if it
  differs from \<^verbatim>\<open>lastValueWritten\<close>, and not at all otherwise. For a sequence of lines
  that all validate, fed from the start of the loop: the values written are the texts
  with adjacent repetitions removed. The same valid line twice gives one write, and the
  lines 10, 10, 20, 10 give the three writes 10, 20, 10, in that order.
\<close>

theorem change_detection_gate:
  "(validate (uflow_erange env) line = Reading t \<longrightarrow>
      value_writes (trace (process_line env line st)) =
      value_writes (trace st) @ (if t \<noteq> lastValueWritten st then [utf8_to_wstring env t] else []))
   \<and> ((\<forall>l\<in>set ls. \<exists>t. validate (uflow_erange env) l = Reading t) \<longrightarrow>
      value_writes (trace (foldl (\<lambda>s l. process_line env l s) (loop_entry t0) ls)) =
      value_writes t0 @ map (utf8_to_wstring env) (remdups_adj (map trim_ascii ls)))
   \<and> (validate (uflow_erange env) line = Reading t \<longrightarrow>
      value_writes (trace (process_line env line (process_line env line (loop_entry [])))) =
      [utf8_to_wstring env t])
   \<and> value_writes (trace (foldl (\<lambda>s l. process_line env l s) (loop_entry [])
        [''10\<newline>'', ''10\<newline>'', ''20\<newline>'', ''10\<newline>''])) =
      [utf8_to_wstring env ''10'', utf8_to_wstring env ''20'', utf8_to_wstring env ''10'']"
  (is "?A \<and> ?B \<and> ?C \<and> ?D")
proof (intro conjI)
  show ?A
    by (simp add: process_line_Reading value_writes_admit)
  have B: "value_writes (trace (foldl (\<lambda>s l. process_line env l s) (loop_entry t0) ls)) =
      value_writes t0 @ map (utf8_to_wstring env) (remdups_adj (map trim_ascii ls))"
    if h: "\<forall>l\<in>set ls. \<exists>t. validate (uflow_erange env) l = Reading t" for ls t0
  proof (cases ls)
    case Nil
    then show ?thesis by (simp add: loop_entry_def)
  next
    case (Cons l ls')
    with h obtain t where "validate (uflow_erange env) l = Reading t" by auto
    then have "trim_ascii l \<noteq> []" using validate_Reading by blast
    then have "tl (remdups_adj ([] # map trim_ascii ls)) = remdups_adj (map trim_ascii ls)"
      using Cons by simp
    then show ?thesis
      using writes_of_readings [OF h, of "loop_entry t0"] by (simp add: loop_entry_def)
  qed
  then show ?B by blast
  show ?C
  proof
    assume r: "validate (uflow_erange env) line = Reading t"
    then have "t \<noteq> []" using validate_Reading by blast
    then show "value_writes (trace (process_line env line (process_line env line (loop_entry [])))) =
      [utf8_to_wstring env t]"
      by (simp add: process_line_Reading [OF r] value_writes_admit) (simp add: loop_entry_def)
  qed
  note v = validate_10 [of "uflow_erange env"] validate_20 [of "uflow_erange env"]
  have t: "trim_ascii ''10\<newline>'' = ''10''" "trim_ascii ''20\<newline>'' = ''20''"
    using v validate_Reading by metis+
  show ?D
    using B [of "[''10\<newline>'', ''10\<newline>'', ''20\<newline>'', ''10\<newline>'']" "[]"] v
    by (simp add: t)
qed


lemma validate_abc: "validate u ''abc\<newline>'' = Rejected ''abc''"
proof -
  have t: "trim_ascii ''abc\<newline>'' = ''abc''" by code_simp
  have s: "scan_subject ''abc'' = None" by code_simp
  have "\<not> valid_numeric u ''abc''"
    by (simp add: stod_unfold s)
  then show ?thesis
    by (simp add: validate_def t)
qed

lemma utf8_to_wstring_quiet:
  "s \<noteq> [] \<Longrightarrow> utf8_to_wstring (quiet_env\<lparr>value_write_result := f\<rparr>) s = map of_char s"
  by (simp add: utf8_to_wstring_def wc_needed_def quiet_env_def)

lemma utf8_to_wstring_quiet_env: "s \<noteq> [] \<Longrightarrow> utf8_to_wstring quiet_env s = map of_char s"
  by (simp add: utf8_to_wstring_def wc_needed_def quiet_env_def)

theorem change_detection_gate_witness:
  "value_writes (trace (foldl (\<lambda>s l. process_line quiet_env l s) (loop_entry [])
     [''10\<newline>'', ''10\<newline>'', ''20\<newline>'', ''10\<newline>''])) =
   [[49, 48], [50, 48], [49, 48]]"
proof -
  let ?ls = "[''10\<newline>'', ''10\<newline>'', ''20\<newline>'', ''10\<newline>'']"
  have h: "\<forall>l\<in>set ?ls. \<exists>t. validate (uflow_erange quiet_env) l = Reading t"
    by (simp add: validate_10 validate_20)
  have t: "trim_ascii ''10\<newline>'' = ''10''" "trim_ascii ''20\<newline>'' = ''20''"
    using validate_10 validate_20 validate_Reading by metis+
  have "value_writes (trace (foldl (\<lambda>s l. process_line quiet_env l s) (loop_entry []) ?ls)) =
        value_writes [] @ map (utf8_to_wstring quiet_env) (remdups_adj (map trim_ascii ?ls))"
    using change_detection_gate [of quiet_env _ _ _ ?ls "[]"] h by blast
  then show ?thesis
    by (simp add: t utf8_to_wstring_quiet_env)
qed

text \<open>
  C5: when the text of a reading differs from \<^verbatim>\<open>lastValueWritten\<close>, the write is
  attempted and reported, and \<^verbatim>\<open>lastValueWritten\<close> becomes the new text whatever
  \<^verbatim>\<open>RegSetValueExW\<close> returns. The same line again changes nothing (no new attempt),
  and a reading with another text followed by the first one gives three attempts in
  all.
\<close>

theorem last_value_advances_before_write:
  "validate (uflow_erange env) line = Reading t \<and> t \<noteq> lastValueWritten st \<longrightarrow>
     trace (process_line env line st) =
       trace st @
       [Call (RegSetValueExW_Value (utf8_to_wstring env t)),
        Print (if value_write_result env (length (value_writes (trace st))) \<noteq> ERROR_SUCCESS
               then Failed_to_write_Value (value_write_result env (length (value_writes (trace st))))
               else Wrote_Value (utf8_to_wstring env t))]
     \<and> lastValueWritten (process_line env line st) = t
     \<and> process_line env line (process_line env line st) = process_line env line st
     \<and> (\<forall>line' t'. validate (uflow_erange env) line' = Reading t' \<and> t' \<noteq> t \<longrightarrow>
          value_writes (trace (process_line env line
            (process_line env line' (process_line env line st)))) =
          value_writes (trace st)
            @ [utf8_to_wstring env t, utf8_to_wstring env t', utf8_to_wstring env t])"
proof (intro impI, elim conjE)
  assume r: "validate (uflow_erange env) line = Reading t" and d: "t \<noteq> lastValueWritten st"
  note p = process_line_Reading [OF r]
  have a: "trace (process_line env line st) =
       trace st @
       [Call (RegSetValueExW_Value (utf8_to_wstring env t)),
        Print (if value_write_result env (length (value_writes (trace st))) \<noteq> ERROR_SUCCESS
               then Failed_to_write_Value (value_write_result env (length (value_writes (trace st))))
               else Wrote_Value (utf8_to_wstring env t))]"
    using d by (simp add: p admit_def emit_def Let_def)
  have b: "lastValueWritten (process_line env line st) = t"
    by (simp add: p)
  have c: "process_line env line (process_line env line st) = process_line env line st"
    by (simp add: p)
  have e: "value_writes (trace (process_line env line
            (process_line env line' (process_line env line st)))) =
          value_writes (trace st)
            @ [utf8_to_wstring env t, utf8_to_wstring env t', utf8_to_wstring env t]"
    if "validate (uflow_erange env) line' = Reading t' \<and> t' \<noteq> t" for line' t'
  proof -
    from that have r': "validate (uflow_erange env) line' = Reading t'" and n: "t \<noteq> t'"
      by auto
    show ?thesis
      using d n by (simp add: p process_line_Reading [OF r'] value_writes_admit)
  qed
  from a b c e show "trace (process_line env line st) =
       trace st @
       [Call (RegSetValueExW_Value (utf8_to_wstring env t)),
        Print (if value_write_result env (length (value_writes (trace st))) \<noteq> ERROR_SUCCESS
               then Failed_to_write_Value (value_write_result env (length (value_writes (trace st))))
               else Wrote_Value (utf8_to_wstring env t))]
     \<and> lastValueWritten (process_line env line st) = t
     \<and> process_line env line (process_line env line st) = process_line env line st
     \<and> (\<forall>line' t'. validate (uflow_erange env) line' = Reading t' \<and> t' \<noteq> t \<longrightarrow>
          value_writes (trace (process_line env line
            (process_line env line' (process_line env line st)))) =
          value_writes (trace st)
            @ [utf8_to_wstring env t, utf8_to_wstring env t', utf8_to_wstring env t])"
    by blast
qed

theorem last_value_advances_before_write_witness:
  "trace (process_line failing_sink_env ''10\<newline>'' (loop_entry [])) =
     [Call (RegSetValueExW_Value [49, 48]), Print (Failed_to_write_Value 5)]
   \<and> lastValueWritten (process_line failing_sink_env ''10\<newline>'' (loop_entry [])) = ''10''
   \<and> process_line failing_sink_env ''10\<newline>''
        (process_line failing_sink_env ''10\<newline>'' (loop_entry [])) =
      process_line failing_sink_env ''10\<newline>'' (loop_entry [])
   \<and> value_writes (trace (process_line failing_sink_env ''10\<newline>''
        (process_line failing_sink_env ''20\<newline>''
          (process_line failing_sink_env ''10\<newline>'' (loop_entry []))))) =
      [[49, 48], [50, 48], [49, 48]]"
proof -
  have h: "validate (uflow_erange failing_sink_env) ''10\<newline>'' = Reading ''10'' \<and>
           ''10'' \<noteq> lastValueWritten (loop_entry [])"
    by (simp add: validate_10 loop_entry_def)
  have h': "validate (uflow_erange failing_sink_env) ''20\<newline>'' = Reading ''20'' \<and> ''20'' \<noteq> ''10''"
    by (simp add: validate_20)
  have w: "utf8_to_wstring failing_sink_env ''10'' = [49, 48]"
          "utf8_to_wstring failing_sink_env ''20'' = [50, 48]"
    by (simp_all add: failing_sink_env_def utf8_to_wstring_quiet)
  have f: "value_write_result failing_sink_env n = 5" for n
    by (simp add: failing_sink_env_def)
  have all: "trace (process_line failing_sink_env ''10\<newline>'' (loop_entry [])) =
       trace (loop_entry []) @
       [Call (RegSetValueExW_Value (utf8_to_wstring failing_sink_env ''10'')),
        Print (if value_write_result failing_sink_env (length (value_writes (trace (loop_entry []))))
                  \<noteq> ERROR_SUCCESS
               then Failed_to_write_Value
                      (value_write_result failing_sink_env (length (value_writes (trace (loop_entry [])))))
               else Wrote_Value (utf8_to_wstring failing_sink_env ''10''))]
     \<and> lastValueWritten (process_line failing_sink_env ''10\<newline>'' (loop_entry [])) = ''10''
     \<and> process_line failing_sink_env ''10\<newline>''
          (process_line failing_sink_env ''10\<newline>'' (loop_entry [])) =
        process_line failing_sink_env ''10\<newline>'' (loop_entry [])
     \<and> (\<forall>line' t'. validate (uflow_erange failing_sink_env) line' = Reading t' \<and> t' \<noteq> ''10'' \<longrightarrow>
          value_writes (trace (process_line failing_sink_env ''10\<newline>''
            (process_line failing_sink_env line'
              (process_line failing_sink_env ''10\<newline>'' (loop_entry []))))) =
          value_writes (trace (loop_entry []))
            @ [utf8_to_wstring failing_sink_env ''10'', utf8_to_wstring failing_sink_env t',
               utf8_to_wstring failing_sink_env ''10''])"
    using last_value_advances_before_write
            [of failing_sink_env "''10\<newline>''" "''10''" "loop_entry []"] h
    by blast
  from all have third: "value_writes (trace (process_line failing_sink_env ''10\<newline>''
            (process_line failing_sink_env ''20\<newline>''
              (process_line failing_sink_env ''10\<newline>'' (loop_entry []))))) =
          value_writes (trace (loop_entry []))
            @ [utf8_to_wstring failing_sink_env ''10'', utf8_to_wstring failing_sink_env ''20'',
               utf8_to_wstring failing_sink_env ''10'']"
    using h' by blast
  have tr: "trace (loop_entry []) = []"
    by (simp add: loop_entry_def)
  show ?thesis
    using all third by (simp add: w f ERROR_SUCCESS_def tr)
qed

text \<open>
  C6: \<^verbatim>\<open>lastValueWritten\<close> is empty when the loop is entered, the text of a reading
  is never empty, and so the first reading (after any lines that are skipped or
  rejected) is written.
\<close>

theorem first_reading_forwarded:
  "lastValueWritten (loop_entry t0) = []
   \<and> (validate (uflow_erange env) line = Reading t \<longrightarrow> t \<noteq> [])
   \<and> ((\<forall>l\<in>set ls. \<forall>t'. validate (uflow_erange env) l \<noteq> Reading t')
        \<and> validate (uflow_erange env) line = Reading t \<longrightarrow>
      value_writes (trace (foldl (\<lambda>s l. process_line env l s) (loop_entry t0) (ls @ [line]))) =
      value_writes t0 @ [utf8_to_wstring env t])"
proof (intro conjI impI)
  show "lastValueWritten (loop_entry t0) = []"
    by (simp add: loop_entry_def)
  show "t \<noteq> []" if "validate (uflow_erange env) line = Reading t"
    using that validate_Reading by blast
  assume h: "(\<forall>l\<in>set ls. \<forall>t'. validate (uflow_erange env) l \<noteq> Reading t')
        \<and> validate (uflow_erange env) line = Reading t"
  have keep: "lastValueWritten (foldl (\<lambda>s l. process_line env l s) st ls) = lastValueWritten st \<and>
        value_writes (trace (foldl (\<lambda>s l. process_line env l s) st ls)) = value_writes (trace st)"
    if "\<forall>l\<in>set ls. \<forall>t'. validate (uflow_erange env) l \<noteq> Reading t'" for st
    using that
  proof (induction ls arbitrary: st)
    case Nil
    show ?case by simp
  next
    case (Cons l ls)
    then show ?case
      using process_line_not_Reading [of env l st] by simp
  qed
  from h have "t \<noteq> []" using validate_Reading by blast
  then show "value_writes (trace (foldl (\<lambda>s l. process_line env l s) (loop_entry t0) (ls @ [line]))) =
      value_writes t0 @ [utf8_to_wstring env t]"
    using h keep [of "loop_entry t0"]
    by (simp add: process_line_Reading value_writes_admit) (simp add: loop_entry_def)
qed

theorem first_reading_forwarded_witness:
  "value_writes (trace (foldl (\<lambda>s l. process_line quiet_env l s) (loop_entry [])
      (['' \<newline>'', ''abc\<newline>''] @ [''10\<newline>'']))) = [[49, 48]]"
proof -
  have s: "validate (uflow_erange quiet_env) '' \<newline>'' = Skipped"
    by (simp add: validate_def trim_ascii_Nil_iff isspace_def)
  have h: "(\<forall>l\<in>set ['' \<newline>'', ''abc\<newline>'']. \<forall>t'. validate (uflow_erange quiet_env) l \<noteq> Reading t')
     \<and> validate (uflow_erange quiet_env) ''10\<newline>'' = Reading ''10''"
    by (simp add: s validate_abc validate_10)
  show ?thesis
    using first_reading_forwarded [of "[]" quiet_env "''10\<newline>''" "''10''" "['' \<newline>'', ''abc\<newline>'']"] h
    by (simp add: utf8_to_wstring_quiet_env)
qed

section \<open>The line assembly\<close>

lemma split_on_not_Nil [simp]: "split_on c s \<noteq> []"
  by (induction s) simp_all

lemma split_on_append:
  "split_on c (x @ y) = butlast (split_on c x) @ split_on c (last (split_on c x) @ y)"
proof (induction x)
  case Nil
  show ?case by simp
next
  case (Cons a x)
  obtain h T where X: "split_on c x = h # T"
    by (cases "split_on c x") simp_all
  show ?case
  proof (cases "a = c")
    case True
    with Cons X show ?thesis by simp
  next
    case False
    show ?thesis
    proof (cases T)
      case Nil
      with False Cons X show ?thesis by simp
    next
      case (Cons t T')
      with False Cons.IH X show ?thesis by simp
    qed
  qed
qed

lemma split_on_absent: "c \<notin> set s \<Longrightarrow> split_on c s = [s]"
  by (induction s) auto

lemma split_on_first: "c \<notin> set p \<Longrightarrow> split_on c (p @ c # r) = p # split_on c r"
  by (induction p) auto

lemma find_char_Some:
  "find_char s c = Some pos \<Longrightarrow> pos < length s \<and> s ! pos = c \<and> c \<notin> set (take pos s)"
proof (induction s arbitrary: pos)
  case Nil
  then show ?case by simp
next
  case (Cons x s)
  show ?case
  proof (cases "x = c")
    case True
    with Cons.prems show ?thesis by simp
  next
    case False
    with Cons.prems obtain q where q: "find_char s c = Some q" "pos = Suc q"
      by auto
    from Cons.IH [OF q(1)] False q(2) show ?thesis by auto
  qed
qed

lemma complete_lines_append:
  "complete_lines (x @ y) = complete_lines x @ complete_lines (pending x @ y)"
  by (simp add: complete_lines_def pending_def split_on_append [of NL x y] butlast_append)

lemma pending_append: "pending (x @ y) = pending (pending x @ y)"
  by (simp add: pending_def split_on_append [of NL x y])

lemma no_newline_lines:
  "NL \<notin> set s \<Longrightarrow> complete_lines s = [] \<and> pending s = s"
  by (simp add: complete_lines_def pending_def split_on_absent)

lemma first_newline_lines:
  assumes "find_char s NL = Some pos"
  shows "complete_lines s = substr s 0 (pos + 1) # complete_lines (drop (pos + 1) s)"
    and "pending s = pending (drop (pos + 1) s)"
proof -
  from find_char_Some [OF assms]
  have lt: "pos < length s" and at: "s ! pos = NL" and n: "NL \<notin> set (take pos s)"
    by simp_all
  have s: "s = take pos s @ NL # drop (Suc pos) s"
    using lt at by (metis id_take_nth_drop)
  have sp: "split_on NL s = take pos s # split_on NL (drop (Suc pos) s)"
    using split_on_first [OF n, of "drop (Suc pos) s"] s by simp
  have tk: "take (Suc pos) s = take pos s @ [NL]"
    using lt at by (simp add: take_Suc_conv_app_nth)
  show "complete_lines s = substr s 0 (pos + 1) # complete_lines (drop (pos + 1) s)"
    by (simp add: complete_lines_def sp substr_def tk)
  show "pending s = pending (drop (pos + 1) s)"
    by (simp add: pending_def sp)
qed

lemma process_line_readBuffer_update:
  "process_line env l (st\<lparr>readBuffer := b\<rparr>) = (process_line env l st)\<lparr>readBuffer := b\<rparr>"
  by (simp add: process_line_def admit_def emit_def Let_def split: verdict.split)

lemma foldl_process_line_readBuffer_update:
  "foldl (\<lambda>s l. process_line env l s) (st\<lparr>readBuffer := b\<rparr>) ls =
   (foldl (\<lambda>s l. process_line env l s) st ls)\<lparr>readBuffer := b\<rparr>"
  by (induction ls arbitrary: st) (simp_all add: process_line_readBuffer_update)

lemma drain_fold:
  "drain env st =
   foldl (\<lambda>s l. process_line env l s) (st\<lparr>readBuffer := pending (readBuffer st)\<rparr>)
     (complete_lines (readBuffer st))"
proof (induction env st rule: drain.induct)
  case (1 env st)
  show ?case
  proof (cases "find_char (readBuffer st) NL")
    case None
    then have "NL \<notin> set (readBuffer st)"
      by (simp add: find_char_None_iff)
    then have "complete_lines (readBuffer st) = []" "pending (readBuffer st) = readBuffer st"
      using no_newline_lines by blast+
    then show ?thesis
      by (subst drain.simps) (simp add: None)
  next
    case (Some pos)
    let ?line = "substr (readBuffer st) 0 (pos + 1)"
    let ?rest = "drop (pos + 1) (readBuffer st)"
    have "drain env st = drain env (process_line env ?line (st\<lparr>readBuffer := ?rest\<rparr>))"
      by (subst drain.simps) (simp add: Some Let_def)
    also have "\<dots> = foldl (\<lambda>s l. process_line env l s)
        ((process_line env ?line (st\<lparr>readBuffer := ?rest\<rparr>))\<lparr>readBuffer := pending ?rest\<rparr>)
        (complete_lines ?rest)"
      using 1 [OF Some refl refl] by simp
    also have "\<dots> = foldl (\<lambda>s l. process_line env l s)
        (st\<lparr>readBuffer := pending (readBuffer st)\<rparr>) (?line # complete_lines ?rest)"
      by (simp add: process_line_readBuffer_update first_newline_lines(2) [OF Some])
    finally show ?thesis
      by (simp only: first_newline_lines(1) [OF Some])
  qed
qed

lemma value_writes_line_events [simp]: "value_writes (line_events t) = value_writes t"
proof (induction t)
  case Nil
  show ?case by (simp add: line_events_def)
next
  case (Cons e t)
  then show ?case
    by (cases e rule: is_read_event.cases) (simp_all add: line_events_def value_writes_def)
qed

lemma line_events_append [simp]: "line_events (a @ b) = line_events a @ line_events b"
  by (simp add: line_events_def)

lemma process_line_cong:
  assumes "lastValueWritten s = lastValueWritten s'"
    and "line_events (trace s) = line_events (trace s')"
  shows "lastValueWritten (process_line env l s) = lastValueWritten (process_line env l s') \<and>
         line_events (trace (process_line env l s)) = line_events (trace (process_line env l s'))"
proof -
  have "value_writes (trace s) = value_writes (trace s')"
    using assms(2) by (metis value_writes_line_events)
  with assms show ?thesis
    by (simp add: process_line_def admit_def emit_def Let_def split: verdict.split)
qed

lemma foldl_process_line_cong:
  "lastValueWritten s = lastValueWritten s' \<Longrightarrow>
   line_events (trace s) = line_events (trace s') \<Longrightarrow>
   lastValueWritten (foldl (\<lambda>s l. process_line env l s) s ls) =
   lastValueWritten (foldl (\<lambda>s l. process_line env l s) s' ls) \<and>
   line_events (trace (foldl (\<lambda>s l. process_line env l s) s ls)) =
   line_events (trace (foldl (\<lambda>s l. process_line env l s) s' ls))"
proof (induction ls arbitrary: s s')
  case Nil
  then show ?case by simp
next
  case (Cons l ls)
  from process_line_cong [OF Cons.prems, of env l]
  show ?case
    using Cons.IH [of "process_line env l s" "process_line env l s'"] by simp
qed

lemma iteration_effect:
  assumes "NL \<notin> set (readBuffer st)"
  shows "readBuffer (iteration env r st) = pending (readBuffer st @ concat (chunks_of [r])) \<and>
         lastValueWritten (iteration env r st) =
         lastValueWritten (foldl (\<lambda>s l. process_line env l s) st
            (complete_lines (readBuffer st @ concat (chunks_of [r])))) \<and>
         line_events (trace (iteration env r st)) =
         line_events (trace (foldl (\<lambda>s l. process_line env l s) st
            (complete_lines (readBuffer st @ concat (chunks_of [r])))))"
proof (cases r)
  case (ReadFailed err)
  with no_newline_lines [OF assms] show ?thesis
    by (simp add: iteration_def emit_def chunks_of_def Let_def line_events_def)
next
  case (ReadOk bytes)
  show ?thesis
  proof (cases "bytes = []")
    case True
    with ReadOk no_newline_lines [OF assms] show ?thesis
      by (simp add: iteration_def emit_def chunks_of_def Let_def line_events_def)
  next
    case False
    let ?st0 = "emit [Call ReadFile] st"
    let ?ls = "complete_lines (readBuffer st @ bytes)"
    have it: "iteration env (ReadOk bytes) st =
        (foldl (\<lambda>s l. process_line env l s) ?st0 ?ls)\<lparr>readBuffer := pending (readBuffer st @ bytes)\<rparr>"
      using False
      by (simp add: iteration_def Let_def drain_fold foldl_process_line_readBuffer_update)
         (simp add: emit_def)
    have "lastValueWritten ?st0 = lastValueWritten st"
         "line_events (trace ?st0) = line_events (trace st)"
      by (simp_all add: emit_def line_events_def)
    from foldl_process_line_cong [OF this, of env ?ls] show ?thesis
      using ReadOk by (simp add: it chunks_of_def)
  qed
qed

lemma run_loop_effect:
  "NL \<notin> set (readBuffer st) \<Longrightarrow>
   readBuffer (run_loop env rs st) = pending (readBuffer st @ concat (chunks_of rs)) \<and>
   lastValueWritten (run_loop env rs st) =
   lastValueWritten (foldl (\<lambda>s l. process_line env l s) st
      (complete_lines (readBuffer st @ concat (chunks_of rs)))) \<and>
   line_events (trace (run_loop env rs st)) =
   line_events (trace (foldl (\<lambda>s l. process_line env l s) st
      (complete_lines (readBuffer st @ concat (chunks_of rs)))))"
proof (induction rs arbitrary: st)
  case Nil
  with no_newline_lines [OF Nil] show ?case
    by (simp add: run_loop_def chunks_of_def)
next
  case (Cons r rs)
  let ?P = "\<lambda>s l. process_line env l s"
  let ?st1 = "iteration env r st"
  let ?c = "concat (chunks_of [r])"
  let ?d = "concat (chunks_of rs)"
  have cc: "concat (chunks_of (r # rs)) = ?c @ ?d"
    by (simp add: chunks_of_def)
  have n1: "NL \<notin> set (readBuffer ?st1)"
    using Cons.prems by (rule iteration_no_newline)
  note e1 = iteration_effect [OF Cons.prems, of env r]
  note ih = Cons.IH [OF n1]
  have run: "run_loop env (r # rs) st = run_loop env rs ?st1"
    by (simp add: run_loop_def)
  have b: "pending (readBuffer ?st1 @ ?d) = pending (readBuffer st @ ?c @ ?d)"
    using e1 pending_append [of "readBuffer st @ ?c" ?d] by simp
  have l: "complete_lines (readBuffer st @ ?c @ ?d) =
           complete_lines (readBuffer st @ ?c) @ complete_lines (readBuffer ?st1 @ ?d)"
    using e1 complete_lines_append [of "readBuffer st @ ?c" ?d] by simp
  have f: "foldl ?P st (complete_lines (readBuffer st @ ?c @ ?d)) =
           foldl ?P (foldl ?P st (complete_lines (readBuffer st @ ?c)))
             (complete_lines (readBuffer ?st1 @ ?d))"
    by (simp only: l foldl_append)
  from e1 have
    "lastValueWritten ?st1 = lastValueWritten (foldl ?P st (complete_lines (readBuffer st @ ?c)))"
    "line_events (trace ?st1) = line_events (trace (foldl ?P st (complete_lines (readBuffer st @ ?c))))"
    by simp_all
  from foldl_process_line_cong [OF this, of env "complete_lines (readBuffer ?st1 @ ?d)"]
  show ?case
    using ih by (simp only: run cc f b)
qed


lemma validate_12_5: "validate u ''12.5\<newline>'' = Reading ''12.5''"
proof -
  have t: "trim_ascii ''12.5\<newline>'' = ''12.5''" by code_simp
  have s: "scan_subject ''12.5'' = Some (4, Finite (125 / 10))" by code_simp
  have "valid_numeric u ''12.5''"
    by (simp add: stod_unfold s)
  then show ?thesis
    by (simp add: validate_def t)
qed

text \<open>
  C1: the inner loop passes to its body exactly the newline-terminated segments of the
  buffer, in order, and leaves the segment after the last newline in the buffer. Over a
  whole run of the read loop, whatever the sequence of \<^verbatim>\<open>ReadFile\<close> results: the
  buffer ends as the unterminated rest of the concatenation of all chunks, and
  \<^verbatim>\<open>lastValueWritten\<close> and the events of the inner loop are those of passing the
  complete lines of that concatenation, one after the other, to the loop body. In
  particular the chunk \<^verbatim>\<open>12\<close> alone leaves \<^verbatim>\<open>12\<close> in the buffer and yields nothing, and
  the chunk \<^verbatim>\<open>.5\\n\<close> after it yields the single reading \<^verbatim>\<open>12.5\<close>.
\<close>

theorem line_assembly:
  "drain env st =
     foldl (\<lambda>s l. process_line env l s) (st\<lparr>readBuffer := pending (readBuffer st)\<rparr>)
       (complete_lines (readBuffer st))
   \<and> readBuffer (run_loop env rs (loop_entry t0)) = pending (concat (chunks_of rs))
   \<and> lastValueWritten (run_loop env rs (loop_entry t0)) =
     lastValueWritten (foldl (\<lambda>s l. process_line env l s) (loop_entry t0)
        (complete_lines (concat (chunks_of rs))))
   \<and> line_events (trace (run_loop env rs (loop_entry t0))) =
     line_events (trace (foldl (\<lambda>s l. process_line env l s) (loop_entry t0)
        (complete_lines (concat (chunks_of rs)))))
   \<and> readBuffer (run_loop env [ReadOk ''12''] (loop_entry [])) = ''12''
   \<and> line_events (trace (run_loop env [ReadOk ''12''] (loop_entry []))) = []
   \<and> readBuffer (run_loop env [ReadOk ''12'', ReadOk ''.5\<newline>''] (loop_entry [])) = []
   \<and> line_events (trace (run_loop env [ReadOk ''12'', ReadOk ''.5\<newline>''] (loop_entry []))) =
     [Call (RegSetValueExW_Value (utf8_to_wstring env ''12.5'')),
      Print (if value_write_result env 0 \<noteq> ERROR_SUCCESS
             then Failed_to_write_Value (value_write_result env 0)
             else Wrote_Value (utf8_to_wstring env ''12.5''))]"
proof -
  have e: "NL \<notin> set (readBuffer (loop_entry t))" "readBuffer (loop_entry t) = []" for t
    by (simp_all add: loop_entry_def)
  note g = run_loop_effect [OF e(1), of env _ t0, unfolded e(2) append_Nil]
  have c1: "concat (chunks_of [ReadOk ''12'']) = ''12''"
    and c2: "concat (chunks_of [ReadOk ''12'', ReadOk ''.5\<newline>'']) = ''12.5\<newline>''"
    by (simp_all add: chunks_of_def)
  have l1: "complete_lines ''12'' = []" "pending ''12'' = ''12''"
    by (simp_all add: complete_lines_def pending_def NL_def)
  have l2: "complete_lines ''12.5\<newline>'' = [''12.5\<newline>'']" "pending ''12.5\<newline>'' = []"
    by (simp_all add: complete_lines_def pending_def NL_def)
  note h1 = run_loop_effect [OF e(1), of env "[ReadOk ''12'']" "[]", unfolded e(2) append_Nil c1 l1]
  note h2 = run_loop_effect [OF e(1), of env "[ReadOk ''12'', ReadOk ''.5\<newline>'']" "[]",
              unfolded e(2) append_Nil c2 l2]
  have p: "process_line env ''12.5\<newline>'' (loop_entry []) = admit env ''12.5'' (loop_entry [])"
    by (rule process_line_Reading) (rule validate_12_5)
  have a: "line_events (trace (admit env ''12.5'' (loop_entry []))) =
     [Call (RegSetValueExW_Value (utf8_to_wstring env ''12.5'')),
      Print (if value_write_result env 0 \<noteq> ERROR_SUCCESS
             then Failed_to_write_Value (value_write_result env 0)
             else Wrote_Value (utf8_to_wstring env ''12.5''))]"
    by (simp add: admit_def emit_def loop_entry_def Let_def line_events_def)
  show ?thesis
    using g h1 h2 by (simp add: drain_fold [symmetric] p a) (simp add: loop_entry_def line_events_def)
qed

theorem line_assembly_witness:
  "readBuffer (run_loop quiet_env [ReadOk ''12''] (loop_entry [])) = ''12''
   \<and> line_events (trace (run_loop quiet_env [ReadOk ''12''] (loop_entry []))) = []
   \<and> readBuffer (run_loop quiet_env [ReadOk ''12'', ReadOk ''.5\<newline>''] (loop_entry [])) = []
   \<and> line_events (trace (run_loop quiet_env [ReadOk ''12'', ReadOk ''.5\<newline>''] (loop_entry []))) =
     [Call (RegSetValueExW_Value [49, 50, 46, 53]), Print (Wrote_Value [49, 50, 46, 53])]"
proof -
  have "value_write_result quiet_env 0 = ERROR_SUCCESS"
    by (simp add: quiet_env_def ERROR_SUCCESS_def)
  then show ?thesis
    using line_assembly [of quiet_env "loop_entry []" "[]" "[]"]
    by (simp add: utf8_to_wstring_quiet_env)
qed

section \<open>Text after the number\<close>

lemma skip_spaces_stops:
  assumes "idx < length t" and "\<not> isspace (last t)"
  shows "skip_spaces t idx < length t"
proof -
  have ne: "drop idx t \<noteq> []"
    using assms(1) by simp
  then have "last (drop idx t) = last t"
    using assms(1) by simp
  with assms(2) ne have "\<exists>x\<in>set (drop idx t). \<not> isspace x"
    by (metis last_in_set)
  then have "takeWhile isspace (drop idx t) \<noteq> drop idx t"
    by (simp add: takeWhile_eq_all_conv)
  then have "length (takeWhile isspace (drop idx t)) \<noteq> length (drop idx t)"
    by (metis takeWhile_eq_take take_all order_refl)
  with length_takeWhile_le [of isspace "drop idx t"]
  have "length (takeWhile isspace (drop idx t)) < length (drop idx t)"
    by linarith
  then show ?thesis
    using assms(1) by (simp add: skip_spaces_eq)
qed

lemma validate_blank_42: "validate u ''  42  \<newline>'' = Reading ''42''"
  and validate_blank_42_bare: "validate u ''  42  '' = Reading ''42''"
proof -
  have t: "trim_ascii ''  42  \<newline>'' = ''42''" "trim_ascii ''  42  '' = ''42''" by code_simp+
  have s: "scan_subject ''42'' = Some (2, Finite 42)" by code_simp
  have "valid_numeric u ''42''"
    by (simp add: stod_unfold s)
  then show "validate u ''  42  \<newline>'' = Reading ''42''" "validate u ''  42  '' = Reading ''42''"
    by (simp_all add: validate_def t)
qed

lemma validate_minus_3_14: "validate u ''-3.14\<newline>'' = Reading ''-3.14''"
  and validate_minus_3_14_bare: "validate u ''-3.14'' = Reading ''-3.14''"
proof -
  have t: "trim_ascii ''-3.14\<newline>'' = ''-3.14''" "trim_ascii ''-3.14'' = ''-3.14''" by code_simp+
  have s: "scan_subject ''-3.14'' = Some (5, Finite (314 / 100))" by code_simp
  have "valid_numeric u ''-3.14''"
    by (simp add: stod_unfold s)
  then show "validate u ''-3.14\<newline>'' = Reading ''-3.14''" "validate u ''-3.14'' = Reading ''-3.14''"
    by (simp_all add: validate_def t)
qed

lemma stod_12_5_extra: "stod u ''12.5 extra'' = Inr 4"
proof -
  have s: "scan_subject ''12.5 extra'' = Some (4, Finite (125 / 10))" by code_simp
  show ?thesis
    by (simp add: stod_unfold s)
qed

lemma trim_12_5_extra:
  "trim_ascii ''12.5 extra\<newline>'' = ''12.5 extra''" "trim_ascii ''12.5 extra'' = ''12.5 extra''"
  by code_simp+

text \<open>
  C4: when \<^verbatim>\<open>std::stod\<close> stops before the end of the trimmed text, the line is
  rejected: the trimmed text ends in a character that is no white space, so the skipping
  of white space after the number cannot reach the end. The line \<^verbatim>\<open>12.5 extra\<close> is
  rejected; the line \<^verbatim>\<open>  42  \<close> is a reading with the text \<^verbatim>\<open>42\<close> and the line
  \<^verbatim>\<open>-3.14\<close> a reading with the text \<^verbatim>\<open>-3.14\<close>, the trimmed text as it came (each
  with and without its newline).
\<close>

theorem trailing_content_rejected:
  "(stod uflow (trim_ascii line) = Inr idx \<and> idx < length (trim_ascii line) \<longrightarrow>
      validate uflow line = Rejected (trim_ascii line))
   \<and> validate uflow ''12.5 extra'' = Rejected ''12.5 extra''
   \<and> validate uflow ''12.5 extra\<newline>'' = Rejected ''12.5 extra''
   \<and> validate uflow ''  42  '' = Reading ''42''
   \<and> validate uflow ''  42  \<newline>'' = Reading ''42''
   \<and> validate uflow ''-3.14'' = Reading ''-3.14''
   \<and> validate uflow ''-3.14\<newline>'' = Reading ''-3.14''"
proof -
  have g: "validate uflow line = Rejected (trim_ascii line)"
    if h: "stod uflow (trim_ascii line) = Inr idx \<and> idx < length (trim_ascii line)" for line idx
  proof -
    from h have ne: "trim_ascii line \<noteq> []" by auto
    then have "\<not> isspace (last (trim_ascii line))"
      by (rule trim_ascii_last)
    with h have "skip_spaces (trim_ascii line) idx < length (trim_ascii line)"
      using skip_spaces_stops by blast
    with h have "\<not> valid_numeric uflow (trim_ascii line)"
      by (simp add: valid_numeric_def)
    with ne show ?thesis
      by (simp add: validate_def)
  qed
  have "validate uflow ''12.5 extra'' = Rejected ''12.5 extra''"
       "validate uflow ''12.5 extra\<newline>'' = Rejected ''12.5 extra''"
    using g [of "''12.5 extra''" 4] g [of "''12.5 extra\<newline>''" 4]
    by (simp_all add: trim_12_5_extra stod_12_5_extra)
  moreover have "stod uflow (trim_ascii line) = Inr idx \<and> idx < length (trim_ascii line) \<longrightarrow>
      validate uflow line = Rejected (trim_ascii line)"
    using g by blast
  ultimately show ?thesis
    by (simp add: validate_blank_42 validate_blank_42_bare validate_minus_3_14
          validate_minus_3_14_bare)
qed

theorem trailing_content_rejected_witness:
  "validate (uflow_erange quiet_env) ''5 6\<newline>'' = Rejected ''5 6''"
proof -
  have t: "trim_ascii ''5 6\<newline>'' = ''5 6''" by code_simp
  have s: "scan_subject ''5 6'' = Some (1, Finite 5)" by code_simp
  have h: "stod (uflow_erange quiet_env) (trim_ascii ''5 6\<newline>'') = Inr 1 \<and>
           1 < length (trim_ascii ''5 6\<newline>'')"
    by (simp add: t stod_unfold s)
  show ?thesis
    using trailing_content_rejected [of "uflow_erange quiet_env" "''5 6\<newline>''" 1] h
    by (simp add: t)
qed

section \<open>Startup and exit status\<close>

text \<open>
  The four results that \<^verbatim>\<open>wmain\<close> checks before the loop: if \<^verbatim>\<open>CreateFileW\<close>,
  \<^verbatim>\<open>GetCommState\<close>, \<^verbatim>\<open>SetCommState\<close> or \<^verbatim>\<open>RegCreateKeyExW\<close> fails, the exit
  status is 1 and \<^verbatim>\<open>ReadFile\<close> is never called; if all four succeed, a run that ends
  ends with status 0.
\<close>

lemma wmain_exit_status:
  "(\<not> create_file_ok env \<or> \<not> get_comm_state_ok env \<or> \<not> set_comm_state_ok env
      \<or> reg_create_key_result env \<noteq> ERROR_SUCCESS \<longrightarrow>
      fst (wmain env rs) = 1 \<and> Call ReadFile \<notin> set (snd (wmain env rs)))
   \<and> (create_file_ok env \<and> get_comm_state_ok env \<and> set_comm_state_ok env
      \<and> reg_create_key_result env = ERROR_SUCCESS \<longrightarrow> fst (wmain env rs) = 0)"
  by (simp add: wmain_def Let_def)

text \<open>
  C9: a fatal startup failure, the transport cannot be opened or configured or the sink
  location cannot be created, ends the process with a non-zero status before any
  iteration of the read loop. The result of \<^verbatim>\<open>SetCommTimeouts\<close>, the third call that
  configures the transport, is not looked at: when it fails and the other calls succeed,
  the loop runs (here one iteration that reads \<^verbatim>\<open>21.5\<close> and writes it) and the exit
  status is 0.
\<close>

theorem failing_timeouts_run:
  "wmain failing_timeouts_env [ReadOk ''21.5\<newline>''] =
     (0, [Call SetConsoleCtrlHandler, Print Opening_serial_port, Call CreateFileW,
          Call GetCommState, Call SetCommState, Call SetCommTimeouts, Call RegCreateKeyExW,
          Call RegSetValueExW_Name, Print Registry_sensor_key_ready,
          Call ReadFile, Call (RegSetValueExW_Value [50, 49, 46, 53]),
          Print (Wrote_Value [50, 49, 46, 53]),
          Print Shutting_down, Call RegCloseKey, Call CloseHandle, Print Exit_complete])"
proof -
  have t: "trim_ascii ''21.5\<newline>'' = ''21.5''" by code_simp
  have s: "scan_subject ''21.5'' = Some (4, Finite (215 / 10))" by code_simp
  have "valid_numeric u ''21.5''" for u
    by (simp add: stod_unfold s)
  then have v: "validate u ''21.5\<newline>'' = Reading ''21.5''" for u
    by (simp add: validate_def t)
  have e: "create_file_ok failing_timeouts_env" "get_comm_state_ok failing_timeouts_env"
    "set_comm_state_ok failing_timeouts_env" "\<not> set_comm_timeouts_ok failing_timeouts_env"
    "reg_create_key_result failing_timeouts_env = 0" "name_write_result failing_timeouts_env = 0"
    "value_write_result failing_timeouts_env n = 0" for n
    by (simp_all add: failing_timeouts_env_def quiet_env_def)
  have w: "utf8_to_wstring failing_timeouts_env ''21.5'' = [50, 49, 46, 53]"
    by (simp add: utf8_to_wstring_def wc_needed_def failing_timeouts_env_def quiet_env_def)
  have d: "drain failing_timeouts_env
             \<lparr>readBuffer = ''21.5\<newline>'', lastValueWritten = [], trace = t0\<rparr> =
           process_line failing_timeouts_env ''21.5\<newline>''
             \<lparr>readBuffer = [], lastValueWritten = [], trace = t0\<rparr>" for t0
    by (simp add: drain_fold complete_lines_def pending_def NL_def)
  show ?thesis
    by (simp add: wmain_def Let_def e ERROR_SUCCESS_def run_loop_def iteration_def emit_def
          loop_entry_def d process_line_def v admit_def w value_writes_def)
qed

section \<open>What the scanners of \<^verbatim>\<open>strtod\<close> accept\<close>

lemma takeWhile_all_append:
  "list_all P xs \<Longrightarrow> takeWhile P (xs @ ys) = xs @ takeWhile P ys"
  by (simp add: list_all_iff takeWhile_append2)

lemma takeWhile_all: "list_all P xs \<Longrightarrow> takeWhile P xs = xs"
  by (simp add: list_all_iff)

lemma list_all_takeWhile [simp]: "list_all P (takeWhile P xs)"
  by (induction xs) simp_all

lemma takeWhile_split: "xs = takeWhile P xs @ drop (length (takeWhile P xs)) xs"
  by (metis append_take_drop_id takeWhile_eq_take)

lemma is_mantissa_int: "list_all dig ip \<Longrightarrow> ip \<noteq> [] \<Longrightarrow> is_mantissa dig ip"
  unfolding is_mantissa_def by (intro exI [of _ ip] exI [of _ "[]"]) simp

lemma is_mantissa_point:
  "list_all dig ip \<Longrightarrow> list_all dig fp \<Longrightarrow> ip \<noteq> [] \<or> fp \<noteq> [] \<Longrightarrow>
   is_mantissa dig (ip @ CHR ''.'' # fp)"
  unfolding is_mantissa_def by (intro exI [of _ ip] exI [of _ fp]) simp

lemma scan_mantissa_sound:
  assumes "scan_mantissa dig s = Some (ip, fp, n)"
  shows "0 < n \<and> n \<le> length s \<and> is_mantissa dig (take n s)"
proof -
  define i where "i = takeWhile dig s"
  define d where "d = drop (length i) s"
  have s: "s = i @ d"
    unfolding i_def d_def by (rule takeWhile_split)
  have li: "list_all dig i" by (simp add: i_def)
  have sm: "scan_mantissa dig s =
     (case d of
        [] \<Rightarrow> if i = [] then None else Some (i, [], length i)
      | c # r \<Rightarrow>
          if c = CHR ''.'' then
            (let fp = takeWhile dig r in
             if i = [] \<and> fp = [] then None else Some (i, fp, length i + 1 + length fp))
          else if i = [] then None else Some (i, [], length i))"
    by (simp only: scan_mantissa_def i_def d_def Let_def)
  show ?thesis
  proof (cases d)
    case Nil
    with assms sm have n: "n = length i" "i \<noteq> []"
      by (auto split: if_splits)
    then show ?thesis
      using s li by (simp add: is_mantissa_int)
  next
    case (Cons c r)
    show ?thesis
    proof (cases "c = CHR ''.''")
      case True
      define f where "f = takeWhile dig r"
      define r' where "r' = drop (length f) r"
      have r: "r = f @ r'"
        unfolding f_def r'_def by (rule takeWhile_split)
      from assms sm Cons True have n: "n = length i + 1 + length f" "i \<noteq> [] \<or> f \<noteq> []"
        by (auto simp: f_def [symmetric] Let_def split: if_splits)
      have s': "s = (i @ CHR ''.'' # f) @ r'"
        using s Cons True r by simp
      have ln: "n = length (i @ CHR ''.'' # f)"
        using n(1) by simp
      have "take n s = i @ CHR ''.'' # f"
        unfolding ln by (subst s') simp
      moreover have "n \<le> length s"
        unfolding ln by (subst s') simp
      moreover have "list_all dig f" by (simp add: f_def)
      ultimately show ?thesis
        using n li by (simp add: is_mantissa_point)
    next
      case False
      with assms sm Cons have n: "n = length i" "i \<noteq> []"
        by (auto split: if_splits)
      then show ?thesis
        using s li by (simp add: is_mantissa_int)
    qed
  qed
qed

lemma scan_mantissa_complete:
  assumes "is_mantissa dig m" and "\<not> dig CHR ''.''"
    and "r = [] \<or> (\<not> dig (hd r) \<and> hd r \<noteq> CHR ''.'')"
  shows "\<exists>ip fp. scan_mantissa dig (m @ r) = Some (ip, fp, length m)"
proof -
  from assms(1) obtain ip fp where d: "list_all dig ip" "list_all dig fp"
    and m: "(m = ip \<and> ip \<noteq> []) \<or> (m = ip @ ''.'' @ fp \<and> (ip \<noteq> [] \<or> fp \<noteq> []))"
    unfolding is_mantissa_def by blast
  have tr: "takeWhile dig r = []"
    using assms(3) by (cases r) auto
  from m show ?thesis
  proof
    assume a: "m = ip \<and> ip \<noteq> []"
    have t: "takeWhile dig (ip @ r) = ip"
      using d(1) tr by (simp add: takeWhile_all_append)
    have "scan_mantissa dig (ip @ r) = Some (ip, [], length ip)"
      unfolding scan_mantissa_def t Let_def
      using a assms(3) by (cases r) auto
    with a show ?thesis by blast
  next
    assume a: "m = ip @ ''.'' @ fp \<and> (ip \<noteq> [] \<or> fp \<noteq> [])"
    have t1: "takeWhile dig (ip @ CHR ''.'' # fp @ r) = ip"
      using d(1) assms(2) by (simp add: takeWhile_all_append)
    have t2: "takeWhile dig (fp @ r) = fp"
      using d(2) tr by (simp add: takeWhile_all_append)
    have "scan_mantissa dig (ip @ CHR ''.'' # fp @ r) = Some (ip, fp, length ip + 1 + length fp)"
      unfolding scan_mantissa_def t1 Let_def
      using a t2 by auto
    with a show ?thesis by simp
  qed
qed


lemma tolower_eq_e: "tolower c = CHR ''e'' \<longleftrightarrow> c = CHR ''e'' \<or> c = CHR ''E''"
  by (auto simp: tolower_def split: if_splits)

lemma tolower_eq_p: "tolower c = CHR ''p'' \<longleftrightarrow> c = CHR ''p'' \<or> c = CHR ''P''"
  by (auto simp: tolower_def split: if_splits)

lemma tolower_eq_x: "tolower c = CHR ''x'' \<longleftrightarrow> c = CHR ''x'' \<or> c = CHR ''X''"
  by (auto simp: tolower_def split: if_splits)

lemma tolower_eq_i: "tolower c = CHR ''i'' \<longleftrightarrow> c = CHR ''i'' \<or> c = CHR ''I''"
  by (auto simp: tolower_def split: if_splits)

lemma tolower_eq_n: "tolower c = CHR ''n'' \<longleftrightarrow> c = CHR ''n'' \<or> c = CHR ''N''"
  by (auto simp: tolower_def split: if_splits)

lemma tolower_eq_0: "tolower c = CHR ''0'' \<longleftrightarrow> c = CHR ''0''"
  by (auto simp: tolower_def split: if_splits)

lemma scan_sign_sound: "scan_sign s \<le> length s \<and> is_sign (take (scan_sign s) s)"
  by (cases s) (auto simp: scan_sign_def is_sign_def)

lemma scan_sign_complete:
  "is_sign sg \<Longrightarrow> b = [] \<or> (hd b \<noteq> CHR ''+'' \<and> hd b \<noteq> CHR ''-'') \<Longrightarrow>
   scan_sign (sg @ b) = length sg"
  by (cases b) (auto simp: scan_sign_def is_sign_def)

lemma scan_exponent_sound:
  assumes "scan_exponent mark s = (e, k)"
  shows "k \<le> length s \<and> is_exponent mark (take k s)"
proof (cases s)
  case Nil
  with assms show ?thesis
    by (simp add: scan_exponent_def is_exponent_def)
next
  case (Cons c r)
  define g where "g = scan_sign r"
  define ds where "ds = takeWhile isdigit (drop g r)"
  define r' where "r' = drop (length ds) (drop g r)"
  define sg where "sg = take g r"
  have g: "length sg = g" "is_sign sg"
    using scan_sign_sound [of r] by (simp_all add: g_def sg_def)
  have r: "r = sg @ ds @ r'"
    unfolding ds_def r'_def sg_def using takeWhile_split [of "drop g r" isdigit] by simp
  show ?thesis
  proof (cases "tolower c = mark \<and> ds \<noteq> []")
    case True
    with assms Cons have k: "k = 1 + g + length ds"
      by (auto simp: scan_exponent_def Let_def g_def [symmetric] ds_def [symmetric])
    have s': "s = (c # sg @ ds) @ r'"
      using Cons r by simp
    have lk: "k = length (c # sg @ ds)"
      using k g(1) by simp
    have tk: "take k s = c # sg @ ds"
      unfolding lk by (subst s') simp
    have "k \<le> length s"
      unfolding lk by (subst s') simp
    moreover have "list_all isdigit ds"
      by (simp add: ds_def)
    then have "is_exponent mark (c # sg @ ds)"
      unfolding is_exponent_def using True g(2) by blast
    ultimately show ?thesis
      by (simp add: tk)
  next
    case False
    with assms Cons have "k = 0"
      by (auto simp: scan_exponent_def Let_def g_def [symmetric] ds_def [symmetric]
            split: if_splits)
    then show ?thesis
      by (simp add: is_exponent_def)
  qed
qed

lemma isdigit_not_sign: "isdigit c \<Longrightarrow> c \<noteq> CHR ''+'' \<and> c \<noteq> CHR ''-''"
  by (auto simp: isdigit_def)

lemma scan_exponent_complete:
  assumes "is_exponent mark e"
  shows "snd (scan_exponent mark e) = length e"
proof (cases "e = []")
  case True
  then show ?thesis by (simp add: scan_exponent_def)
next
  case False
  with assms obtain c sg ds where c: "tolower c = mark" and sg: "is_sign sg"
    and ds: "list_all isdigit ds" "ds \<noteq> []" and e: "e = c # sg @ ds"
    unfolding is_exponent_def by blast
  have "isdigit (hd ds)"
    using ds by (cases ds) simp_all
  then have g: "scan_sign (sg @ ds) = length sg"
    using sg ds(2) isdigit_not_sign by (intro scan_sign_complete) auto
  have t: "takeWhile isdigit ds = ds"
    using ds(1) by (rule takeWhile_all)
  show ?thesis
    using c ds(2) by (simp add: e scan_exponent_def g t Let_def)
qed

lemma exponent_hd:
  assumes "is_exponent mark e" and "\<And>c. tolower c = mark \<Longrightarrow> \<not> dig c \<and> c \<noteq> CHR ''.''"
  shows "e = [] \<or> (\<not> dig (hd e) \<and> hd e \<noteq> CHR ''.'')"
  using assms unfolding is_exponent_def by auto

lemma take_take_drop: "take (n + k) s = take n s @ take k (drop n s)"
  by (simp add: take_add)

lemma take_append3:
  "take (a + b + c) s = take a s @ take b (drop a s) @ take c (drop (a + b) s)"
  by (simp only: take_add append_assoc)

lemma scan_decimal_sound:
  assumes "scan_decimal s = Some (n, v)"
  shows "0 < n \<and> n \<le> length s \<and> is_decimal_body (take n s)"
proof -
  from assms obtain ip fp n0 where m: "scan_mantissa isdigit s = Some (ip, fp, n0)"
    by (auto simp: scan_decimal_def split: option.splits)
  obtain e k where x: "scan_exponent CHR ''e'' (drop n0 s) = (e, k)"
    by (cases "scan_exponent CHR ''e'' (drop n0 s)") simp
  from assms m x have n: "n = n0 + k"
    by (simp add: scan_decimal_def)
  from scan_mantissa_sound [OF m] scan_exponent_sound [OF x]
  have "0 < n0" "n0 \<le> length s" "is_mantissa isdigit (take n0 s)"
    "k \<le> length (drop n0 s)" "is_exponent CHR ''e'' (take k (drop n0 s))"
    by simp_all
  then show ?thesis
    unfolding n take_take_drop is_decimal_body_def by auto
qed

lemma scan_decimal_complete:
  assumes "is_decimal_body b"
  shows "\<exists>v. scan_decimal b = Some (length b, v)"
proof -
  from assms obtain m e where m: "is_mantissa isdigit m" and e: "is_exponent CHR ''e'' e"
    and b: "b = m @ e"
    unfolding is_decimal_body_def by blast
  have "e = [] \<or> (\<not> isdigit (hd e) \<and> hd e \<noteq> CHR ''.'')"
    using e by (rule exponent_hd) (auto simp: tolower_eq_e isdigit_def)
  with m obtain ip fp where s: "scan_mantissa isdigit (m @ e) = Some (ip, fp, length m)"
    using scan_mantissa_complete [of isdigit m e] by (auto simp: isdigit_def)
  obtain x k where x: "scan_exponent CHR ''e'' e = (x, k)"
    by (cases "scan_exponent CHR ''e'' e") simp
  with scan_exponent_complete [OF e] have "k = length e" by simp
  with s x show ?thesis
    by (simp add: scan_decimal_def b)
qed

lemma ci_prefix_iff:
  "ci_prefix p s \<longleftrightarrow> (\<exists>x r. s = x @ r \<and> map tolower x = p)"
proof
  assume "ci_prefix p s"
  then have "s = take (length p) s @ drop (length p) s \<and> map tolower (take (length p) s) = p"
    by (simp add: ci_prefix_def)
  then show "\<exists>x r. s = x @ r \<and> map tolower x = p" by blast
next
  assume "\<exists>x r. s = x @ r \<and> map tolower x = p"
  then obtain x r where "s = x @ r" "map tolower x = p" by blast
  moreover from this have "length x = length p" by (metis length_map)
  ultimately show "ci_prefix p s"
    by (simp add: ci_prefix_def)
qed

lemma ci_prefix_append:
  assumes "map tolower x = p"
  shows "ci_prefix p (x @ r)"
proof -
  have "length (map tolower x) = length x"
    by (rule length_map)
  then have "length x = length p"
    by (simp only: assms)
  then show ?thesis
    using assms by (simp add: ci_prefix_def)
qed

lemma ci_prefix_take:
  "ci_prefix p s \<Longrightarrow> length p = k \<Longrightarrow> k \<le> length s \<and> map tolower (take k s) = p"
  by (auto simp: ci_prefix_def)

lemma scan_hex_sound:
  assumes "scan_hex s = Some (n, v)"
  shows "0 < n \<and> n \<le> length s \<and> is_hex_body (take n s)"
proof -
  from assms have c: "ci_prefix ''0x'' s"
    by (simp add: scan_hex_def split: if_splits)
  have "length ''0x'' = 2" by simp
  from ci_prefix_take [OF c this]
  have l: "2 \<le> length s" and x: "map tolower (take 2 s) = ''0x''"
    by blast+
  from assms c obtain ip fp n0 where m: "scan_mantissa isxdigit (drop 2 s) = Some (ip, fp, n0)"
    by (auto simp: scan_hex_def split: option.splits)
  obtain e k where e: "scan_exponent CHR ''p'' (drop (2 + n0) s) = (e, k)"
    by (cases "scan_exponent CHR ''p'' (drop (2 + n0) s)") simp
  from assms c m e have n: "n = 2 + n0 + k"
    by (simp add: scan_hex_def)
  from scan_mantissa_sound [OF m] scan_exponent_sound [OF e]
  have f: "n0 \<le> length (drop 2 s)" "is_mantissa isxdigit (take n0 (drop 2 s))"
    "k \<le> length (drop (2 + n0) s)" "is_exponent CHR ''p'' (take k (drop (2 + n0) s))"
    by simp_all
  have t: "take n s = take 2 s @ take n0 (drop 2 s) @ take k (drop (2 + n0) s)"
    unfolding n by (rule take_append3)
  have "is_hex_body (take n s)"
    unfolding t is_hex_body_def using x f(2) f(4)
    by (intro exI conjI) (assumption | rule refl)+
  moreover have "n \<le> length s"
    using f l by (simp add: n)
  ultimately show ?thesis
    by (simp add: n)
qed

lemma scan_hex_complete:
  assumes "is_hex_body b"
  shows "\<exists>v. scan_hex b = Some (length b, v)"
proof -
  from assms have "\<exists>x m e. map tolower x = ''0x'' \<and> is_mantissa isxdigit m \<and>
      is_exponent CHR ''p'' e \<and> b = x @ m @ e"
    unfolding is_hex_body_def .
  then obtain x m e where x: "map tolower x = ''0x''" and m: "is_mantissa isxdigit m"
    and e: "is_exponent CHR ''p'' e" and b: "b = x @ m @ e"
    by (elim exE conjE) (rule that)
  have "length (map tolower x) = length x"
    by (rule length_map)
  then have lx: "length x = 2"
    by (simp add: x)
  have c: "ci_prefix ''0x'' b"
    unfolding b using x by (rule ci_prefix_append)
  have d: "drop 2 b = m @ e" "drop (2 + length m) b = e"
    using b lx by simp_all
  have "e = [] \<or> (\<not> isxdigit (hd e) \<and> hd e \<noteq> CHR ''.'')"
    using e by (rule exponent_hd) (auto simp: tolower_eq_p isxdigit_def)
  with m obtain ip fp where s: "scan_mantissa isxdigit (m @ e) = Some (ip, fp, length m)"
    using scan_mantissa_complete [of isxdigit m e] by (auto simp: isxdigit_def)
  obtain y k where y: "scan_exponent CHR ''p'' e = (y, k)"
    by (cases "scan_exponent CHR ''p'' e") simp
  with scan_exponent_complete [OF e] have "k = length e" by simp
  with s y c d show ?thesis
    by (simp add: scan_hex_def) (simp add: b lx)
qed

lemma scan_inf_sound:
  assumes "scan_inf s = Some (n, v)"
  shows "0 < n \<and> n \<le> length s \<and> is_inf_body (take n s)"
proof (cases "ci_prefix ''infinity'' s")
  case True
  have "length ''infinity'' = 8" by simp
  from ci_prefix_take [OF True this]
  have "8 \<le> length s" "map tolower (take 8 s) = ''infinity''"
    by blast+
  moreover from assms True have "n = 8"
    by (simp add: scan_inf_def)
  ultimately show ?thesis
    by (simp add: is_inf_body_def)
next
  case False
  with assms have c: "ci_prefix ''inf'' s" and n: "n = 3"
    by (simp_all add: scan_inf_def split: if_splits)
  have "length ''inf'' = 3" by simp
  from ci_prefix_take [OF c this]
  have "3 \<le> length s" "map tolower (take 3 s) = ''inf''"
    by blast+
  with n show ?thesis
    by (simp add: is_inf_body_def)
qed

lemma scan_inf_complete:
  assumes "is_inf_body b"
  shows "\<exists>v. scan_inf b = Some (length b, v)"
proof -
  from assms consider "map tolower b = ''inf''" | "map tolower b = ''infinity''"
    unfolding is_inf_body_def by blast
  then show ?thesis
  proof cases
    case 1
    then have "length b = 3"
      using length_map [of tolower b] by simp
    with 1 show ?thesis
      by (simp add: scan_inf_def ci_prefix_def)
  next
    case 2
    then have "length b = 8"
      using length_map [of tolower b] by simp
    with 2 show ?thesis
      by (simp add: scan_inf_def ci_prefix_def)
  qed
qed

lemma not_nchar_paren: "\<not> is_nchar CHR '')''"
  by (simp add: is_nchar_def isdigit_def isupper_def islower_def)

lemma scan_nan_sound:
  assumes "scan_nan s = Some (n, v)"
  shows "0 < n \<and> n \<le> length s \<and> is_nan_body (take n s)"
proof -
  from assms have c: "ci_prefix ''nan'' s"
    by (simp add: scan_nan_def split: if_splits)
  have "length ''nan'' = 3" by simp
  from ci_prefix_take [OF c this]
  have l: "3 \<le> length s" and w: "map tolower (take 3 s) = ''nan''"
    by blast+
  have short: "is_nan_body (take 3 s)"
    unfolding is_nan_body_def using w by (intro exI [of _ "take 3 s"] exI [of _ "[]"]) simp
  show ?thesis
  proof (cases "n = 3")
    case True
    with l short show ?thesis by simp
  next
    case False
    with assms c obtain r where d: "drop 3 s = CHR ''('' # r"
      by (auto simp: scan_nan_def Let_def split: list.splits if_splits)
    define ns where "ns = takeWhile is_nchar r"
    define w where "w = take 3 s"
    have lw: "length w = 3"
      using l by (simp add: w_def)
    from False assms c d obtain r' where r': "drop (length ns) r = CHR '')'' # r'"
      and n: "n = 3 + 1 + length ns + 1"
      by (auto simp: scan_nan_def Let_def ns_def [symmetric] split: list.splits if_splits)
    have r: "r = ns @ CHR '')'' # r'"
      using takeWhile_split [of r is_nchar] r' by (simp add: ns_def)
    have "s = w @ drop 3 s"
      by (simp add: w_def)
    then have s: "s = w @ ''('' @ ns @ '')'' @ r'"
      using d r by simp
    have tk: "take n s = w @ ''('' @ ns @ '')''"
      by (subst s) (simp add: n lw)
    have nl: "n \<le> length s"
      by (subst s) (simp add: n lw)
    have "list_all is_nchar ns"
      by (simp add: ns_def)
    moreover have "map tolower w = ''nan''"
      using w by (simp only: w_def)
    ultimately have "is_nan_body (w @ ''('' @ ns @ '')'')"
      unfolding is_nan_body_def
      by (intro exI conjI disjI2) (assumption | rule refl)+
    then have "is_nan_body (take n s)"
      by (simp only: tk)
    moreover have "0 < n"
      using n by simp
    ultimately show ?thesis
      using nl by (intro conjI)
  qed
qed

lemma scan_nan_complete:
  assumes "is_nan_body b"
  shows "\<exists>v. scan_nan b = Some (length b, v)"
proof -
  from assms have "\<exists>w ns. map tolower w = ''nan'' \<and> list_all is_nchar ns \<and>
      (b = w \<or> b = w @ ''('' @ ns @ '')'')"
    unfolding is_nan_body_def .
  then obtain w ns where w: "map tolower w = ''nan''" and ns: "list_all is_nchar ns"
    and b: "b = w \<or> b = w @ ''('' @ ns @ '')''"
    by (elim exE conjE) (rule that)
  have "length (map tolower w) = length w"
    by (rule length_map)
  then have lw: "length w = 3"
    by (simp add: w)
  from b show ?thesis
  proof
    assume "b = w"
    with w lw show ?thesis
      by (simp add: scan_nan_def ci_prefix_def)
  next
    assume b: "b = w @ ''('' @ ns @ '')''"
    have c: "ci_prefix ''nan'' b"
      unfolding b using w by (rule ci_prefix_append)
    have d: "drop 3 b = CHR ''('' # ns @ '')''"
      using b lw by simp
    have t: "takeWhile is_nchar (ns @ '')'') = ns"
      using ns by (simp add: takeWhile_all_append not_nchar_paren)
    show ?thesis
      using c by (simp add: scan_nan_def d t Let_def) (simp add: b lw)
  qed
qed

section \<open>The characters of the literals\<close>

lemma mantissa_hd:
  assumes "is_mantissa dig m"
  shows "m \<noteq> [] \<and> (dig (hd m) \<or> hd m = CHR ''.'')"
proof -
  from assms obtain ip fp where d: "list_all dig ip" "list_all dig fp"
    and m: "(m = ip \<and> ip \<noteq> []) \<or> (m = ip @ ''.'' @ fp \<and> (ip \<noteq> [] \<or> fp \<noteq> []))"
    unfolding is_mantissa_def by (elim exE conjE) (rule that)
  show ?thesis
  proof (cases ip)
    case Nil
    with m show ?thesis by auto
  next
    case (Cons a ip')
    with d(1) m show ?thesis by auto
  qed
qed

lemma mantissa_chars:
  assumes "is_mantissa dig m" and "\<And>c. dig c \<Longrightarrow> Q c" and "Q CHR ''.''"
  shows "list_all Q m"
proof -
  from assms(1) obtain ip fp where d: "list_all dig ip" "list_all dig fp"
    and m: "(m = ip \<and> ip \<noteq> []) \<or> (m = ip @ ''.'' @ fp \<and> (ip \<noteq> [] \<or> fp \<noteq> []))"
    unfolding is_mantissa_def by (elim exE conjE) (rule that)
  have "list_all Q ip" "list_all Q fp"
    using d assms(2) by (auto simp: list_all_iff)
  with m assms(3) show ?thesis
    by auto
qed

lemma exponent_chars:
  assumes "is_exponent mark e" and "\<And>c. tolower c = mark \<Longrightarrow> Q c"
    and "Q CHR ''+''" and "Q CHR ''-''" and "\<And>c. isdigit c \<Longrightarrow> Q c"
  shows "list_all Q e"
proof (cases "e = []")
  case True
  then show ?thesis by simp
next
  case False
  with assms(1) obtain c sg ds where c: "tolower c = mark" and sg: "is_sign sg"
    and ds: "list_all isdigit ds" and e: "e = c # sg @ ds"
    unfolding is_exponent_def by blast
  have "list_all Q ds"
    using ds assms(5) by (auto simp: list_all_iff)
  moreover have "list_all Q sg"
    using sg assms(3,4) by (auto simp: is_sign_def)
  ultimately show ?thesis
    using assms(2) [OF c] by (simp add: e)
qed

lemma decimal_body_chars:
  assumes "is_decimal_body b"
  shows "list_all decimal_char b"
proof -
  from assms obtain m e where m: "is_mantissa isdigit m" and e: "is_exponent CHR ''e'' e"
    and b: "b = m @ e"
    unfolding is_decimal_body_def by blast
  have "list_all decimal_char m"
    using m by (rule mantissa_chars) (auto simp: isdigit_def decimal_char_def)
  moreover have "list_all decimal_char e"
    using e by (rule exponent_chars) (auto simp: isdigit_def decimal_char_def tolower_eq_e)
  ultimately show ?thesis
    by (simp add: b)
qed

lemma decimal_literal_chars:
  assumes "is_decimal_literal s"
  shows "list_all decimal_char s"
proof -
  from assms obtain sg b where sg: "is_sign sg" and b: "is_decimal_body b" and s: "s = sg @ b"
    unfolding is_decimal_literal_def by blast
  have "list_all decimal_char sg"
    using sg by (auto simp: is_sign_def decimal_char_def)
  with decimal_body_chars [OF b] show ?thesis
    by (simp add: s)
qed

lemma scan_hex_None: "b \<noteq> [] \<Longrightarrow> tolower (hd b) \<noteq> CHR ''0'' \<Longrightarrow> scan_hex b = None"
  by (cases b) (auto simp: scan_hex_def ci_prefix_def)

lemma scan_decimal_None:
  "b \<noteq> [] \<Longrightarrow> \<not> isdigit (hd b) \<Longrightarrow> hd b \<noteq> CHR ''.'' \<Longrightarrow> scan_decimal b = None"
  by (cases b) (auto simp: scan_decimal_def scan_mantissa_def)

lemma scan_inf_None: "b \<noteq> [] \<Longrightarrow> tolower (hd b) \<noteq> CHR ''i'' \<Longrightarrow> scan_inf b = None"
  by (cases b) (auto simp: scan_inf_def ci_prefix_def)

lemma decimal_body_not_hex:
  assumes "is_decimal_body b"
  shows "scan_hex b = None"
proof (cases "ci_prefix ''0x'' b")
  case False
  then show ?thesis by (simp add: scan_hex_def)
next
  case True
  have "length ''0x'' = 2" by simp
  from ci_prefix_take [OF True this]
  have l: "2 \<le> length b" and x: "map tolower (take 2 b) = ''0x''"
    by blast+
  from l have "take 2 b = [b ! 0, b ! 1]"
    by (cases b; cases "tl b") auto
  with x have "tolower (b ! 1) = CHR ''x''"
    by simp
  then have "\<not> decimal_char (b ! 1)"
    by (auto simp: tolower_eq_x decimal_char_def)
  moreover have "decimal_char (b ! 1)"
    using decimal_body_chars [OF assms] l by (simp add: list_all_length)
  ultimately show ?thesis by simp
qed


lemma decimal_body_hd:
  assumes "is_decimal_body b"
  shows "b \<noteq> [] \<and> (isdigit (hd b) \<or> hd b = CHR ''.'')"
proof -
  from assms obtain m e where m: "is_mantissa isdigit m" and b: "b = m @ e"
    unfolding is_decimal_body_def by blast
  from mantissa_hd [OF m] show ?thesis
    by (simp add: b)
qed

lemma hex_body_hd:
  assumes "is_hex_body b"
  shows "b \<noteq> [] \<and> hd b = CHR ''0''"
proof -
  from assms have "\<exists>x m e. map tolower x = ''0x'' \<and> is_mantissa isxdigit m \<and>
      is_exponent CHR ''p'' e \<and> b = x @ m @ e"
    unfolding is_hex_body_def .
  then obtain x m e where x: "map tolower x = ''0x''" and b: "b = x @ m @ e"
    by (elim exE conjE) (rule that)
  from x obtain c x' where "x = c # x'" "tolower c = CHR ''0''"
    by auto
  then show ?thesis
    by (simp add: b tolower_eq_0)
qed

lemma inf_body_hd:
  assumes "is_inf_body b"
  shows "b \<noteq> [] \<and> tolower (hd b) = CHR ''i''"
  using assms unfolding is_inf_body_def by auto

lemma nan_body_hd:
  assumes "is_nan_body b"
  shows "b \<noteq> [] \<and> tolower (hd b) = CHR ''n''"
proof -
  from assms have "\<exists>w ns. map tolower w = ''nan'' \<and> list_all is_nchar ns \<and>
      (b = w \<or> b = w @ ''('' @ ns @ '')'')"
    unfolding is_nan_body_def .
  then obtain w ns where w: "map tolower w = ''nan''"
    and b: "b = w \<or> b = w @ ''('' @ ns @ '')''"
    by (elim exE conjE) (rule that)
  from w obtain c w' where "w = c # w'" "tolower c = CHR ''n''"
    by auto
  with b show ?thesis
    by auto
qed

section \<open>The subject sequence\<close>

lemma scan_subject_sound:
  assumes "scan_subject s = Some (n, v)"
  shows "0 < n \<and> n \<le> length s \<and> is_stod_literal (take n s)"
proof -
  define k where "k = scan_sign s"
  define r where "r = drop k s"
  have k: "k \<le> length s" "is_sign (take k s)"
    using scan_sign_sound [of s] by (simp_all add: k_def)
  from assms obtain n0 where n: "n = k + n0"
    and c: "scan_hex r = Some (n0, v) \<or> scan_decimal r = Some (n0, v)
            \<or> scan_inf r = Some (n0, v) \<or> scan_nan r = Some (n0, v)"
    by (auto simp: scan_subject_def Let_def k_def [symmetric] r_def [symmetric]
          split: option.splits)
  have b: "0 < n0 \<and> n0 \<le> length r \<and>
     (is_decimal_body (take n0 r) \<or> is_hex_body (take n0 r) \<or> is_inf_body (take n0 r)
      \<or> is_nan_body (take n0 r))"
    using c scan_hex_sound [of r n0 v] scan_decimal_sound [of r n0 v]
      scan_inf_sound [of r n0 v] scan_nan_sound [of r n0 v]
    by (elim disjE) simp_all
  have t: "take n s = take k s @ take n0 r"
    unfolding n r_def by (rule take_take_drop)
  have "is_stod_literal (take k s @ take n0 r)"
    unfolding is_stod_literal_def
    using k(2) b by (intro exI [of _ "take k s"] exI [of _ "take n0 r"]) simp
  moreover have "n \<le> length s"
  proof -
    from b have "n0 \<le> length s - k" by (simp add: r_def)
    with k(1) show ?thesis unfolding n by linarith
  qed
  moreover have "0 < n"
    using b by (simp add: n)
  ultimately show ?thesis
    by (simp only: t simp_thms)
qed

lemma scan_subject_complete:
  assumes "is_stod_literal s"
  shows "\<exists>v. scan_subject s = Some (length s, v)"
proof -
  from assms obtain sg b where sg: "is_sign sg" and s: "s = sg @ b"
    and b: "is_decimal_body b \<or> is_hex_body b \<or> is_inf_body b \<or> is_nan_body b"
    unfolding is_stod_literal_def by blast
  have hd: "b \<noteq> [] \<and> hd b \<noteq> CHR ''+'' \<and> hd b \<noteq> CHR ''-''"
    using b decimal_body_hd [of b] hex_body_hd [of b] inf_body_hd [of b] nan_body_hd [of b]
    by (elim disjE) (auto simp: isdigit_def tolower_eq_i tolower_eq_n)
  then have k: "scan_sign (sg @ b) = length sg"
    using sg by (intro scan_sign_complete) auto
  have "\<exists>v. (case scan_hex b of
              Some x \<Rightarrow> Some x
            | None \<Rightarrow>
                (case scan_decimal b of
                   Some x \<Rightarrow> Some x
                 | None \<Rightarrow> (case scan_inf b of Some x \<Rightarrow> Some x | None \<Rightarrow> scan_nan b)))
          = Some (length b, v)"
    using b
  proof (elim disjE)
    assume d: "is_decimal_body b"
    from scan_decimal_complete [OF d] decimal_body_not_hex [OF d] show ?thesis
      by auto
  next
    assume h: "is_hex_body b"
    from scan_hex_complete [OF h] show ?thesis
      by auto
  next
    assume i: "is_inf_body b"
    from inf_body_hd [OF i] have "scan_hex b = None" "scan_decimal b = None"
      by (auto intro!: scan_hex_None scan_decimal_None simp: tolower_eq_i tolower_eq_0 isdigit_def)
    with scan_inf_complete [OF i] show ?thesis
      by auto
  next
    assume a: "is_nan_body b"
    from nan_body_hd [OF a] have "scan_hex b = None" "scan_decimal b = None" "scan_inf b = None"
      by (auto intro!: scan_hex_None scan_decimal_None scan_inf_None
            simp: tolower_eq_n tolower_eq_0 tolower_eq_i isdigit_def)
    with scan_nan_complete [OF a] show ?thesis
      by auto
  qed
  then obtain v where v: "(case scan_hex b of
              Some x \<Rightarrow> Some x
            | None \<Rightarrow>
                (case scan_decimal b of
                   Some x \<Rightarrow> Some x
                 | None \<Rightarrow> (case scan_inf b of Some x \<Rightarrow> Some x | None \<Rightarrow> scan_nan b)))
          = Some (length b, v)"
    by (elim exE)
  have d: "drop (length sg) (sg @ b) = b"
    by simp
  have "scan_subject (sg @ b) = Some (length sg + length b, v)"
    unfolding scan_subject_def Let_def k d v by simp
  then show ?thesis
    by (simp add: s)
qed


section \<open>What the validation accepts\<close>

lemma tolower_NUL: "tolower c = d \<Longrightarrow> d \<noteq> CHR 0x00 \<Longrightarrow> c \<noteq> CHR 0x00"
  by (auto simp: tolower_def)

lemma map_tolower_no_NUL:
  assumes "map tolower w = p" and "CHR 0x00 \<notin> set p"
  shows "list_all (\<lambda>c. c \<noteq> CHR 0x00) w"
proof -
  have "c \<noteq> CHR 0x00" if "c \<in> set w" for c
  proof -
    from that have "tolower c \<in> set (map tolower w)" by simp
    with assms have "tolower c \<noteq> CHR 0x00" by metis
    then show ?thesis by (rule tolower_NUL [OF refl])
  qed
  then show ?thesis by (simp add: list_all_iff)
qed

lemma mantissa_no_NUL:
  assumes "is_mantissa dig m" and "\<not> dig CHR 0x00"
  shows "list_all (\<lambda>c. c \<noteq> CHR 0x00) m"
  using assms(1)
proof (rule mantissa_chars)
  fix c
  assume "dig c"
  with assms(2) show "c \<noteq> CHR 0x00" by auto
qed simp

lemma exponent_no_NUL:
  assumes "is_exponent mark e" and "mark \<noteq> CHR 0x00"
  shows "list_all (\<lambda>c. c \<noteq> CHR 0x00) e"
  using assms(1)
proof (rule exponent_chars)
  fix c
  assume "tolower c = mark"
  then show "c \<noteq> CHR 0x00"
    using assms(2) by (rule tolower_NUL)
next
  fix c
  assume "isdigit c"
  then show "c \<noteq> CHR 0x00"
    by (auto simp: isdigit_def)
qed simp_all

lemma decimal_body_no_NUL:
  assumes "is_decimal_body b"
  shows "list_all (\<lambda>c. c \<noteq> CHR 0x00) b"
proof -
  from assms obtain m e where m: "is_mantissa isdigit m" and e: "is_exponent CHR ''e'' e"
    and b: "b = m @ e"
    unfolding is_decimal_body_def by blast
  have "list_all (\<lambda>c. c \<noteq> CHR 0x00) m"
    using m by (rule mantissa_no_NUL) (simp add: isdigit_def)
  moreover have "list_all (\<lambda>c. c \<noteq> CHR 0x00) e"
    using e by (rule exponent_no_NUL) simp
  ultimately show ?thesis
    by (simp add: b)
qed

lemma hex_body_no_NUL:
  assumes "is_hex_body b"
  shows "list_all (\<lambda>c. c \<noteq> CHR 0x00) b"
proof -
  from assms have "\<exists>x m e. map tolower x = ''0x'' \<and> is_mantissa isxdigit m \<and>
      is_exponent CHR ''p'' e \<and> b = x @ m @ e"
    unfolding is_hex_body_def .
  then obtain x m e where x: "map tolower x = ''0x''" and m: "is_mantissa isxdigit m"
    and e: "is_exponent CHR ''p'' e" and b: "b = x @ m @ e"
    by (elim exE conjE) (rule that)
  have "list_all (\<lambda>c. c \<noteq> CHR 0x00) m"
    using m by (rule mantissa_no_NUL) (simp add: isxdigit_def)
  moreover have "list_all (\<lambda>c. c \<noteq> CHR 0x00) e"
    using e by (rule exponent_no_NUL) simp
  moreover have "list_all (\<lambda>c. c \<noteq> CHR 0x00) x"
    using x by (rule map_tolower_no_NUL) simp
  ultimately show ?thesis
    by (simp add: b)
qed

lemma inf_body_no_NUL:
  assumes "is_inf_body b"
  shows "list_all (\<lambda>c. c \<noteq> CHR 0x00) b"
proof -
  from assms consider "map tolower b = ''inf''" | "map tolower b = ''infinity''"
    unfolding is_inf_body_def by (elim disjE)
  then show ?thesis
  proof cases
    case 1
    then show ?thesis by (rule map_tolower_no_NUL) simp
  next
    case 2
    then show ?thesis by (rule map_tolower_no_NUL) simp
  qed
qed

lemma nan_body_no_NUL:
  assumes "is_nan_body b"
  shows "list_all (\<lambda>c. c \<noteq> CHR 0x00) b"
proof -
  from assms have "\<exists>w ns. map tolower w = ''nan'' \<and> list_all is_nchar ns \<and>
      (b = w \<or> b = w @ ''('' @ ns @ '')'')"
    unfolding is_nan_body_def .
  then obtain w ns where w: "map tolower w = ''nan''" and ns: "list_all is_nchar ns"
    and b: "b = w \<or> b = w @ ''('' @ ns @ '')''"
    by (elim exE conjE) (rule that)
  have "\<not> is_nchar CHR 0x00"
    by (simp add: is_nchar_def isdigit_def isupper_def islower_def)
  then have "list_all (\<lambda>c. c \<noteq> CHR 0x00) ns"
    using ns by (auto simp: list_all_iff)
  moreover have "list_all (\<lambda>c. c \<noteq> CHR 0x00) w"
    using w by (rule map_tolower_no_NUL) simp
  ultimately show ?thesis
    using b by (elim disjE) simp_all
qed

lemma literal_no_NUL:
  assumes "is_stod_literal s"
  shows "list_all (\<lambda>c. c \<noteq> CHR 0x00) s"
proof -
  from assms obtain sg b where sg: "is_sign sg" and s: "s = sg @ b"
    and b: "is_decimal_body b \<or> is_hex_body b \<or> is_inf_body b \<or> is_nan_body b"
    unfolding is_stod_literal_def by blast
  have "list_all (\<lambda>c. c \<noteq> CHR 0x00) b"
    using b decimal_body_no_NUL hex_body_no_NUL inf_body_no_NUL nan_body_no_NUL
    by (elim disjE) simp_all
  moreover have "list_all (\<lambda>c. c \<noteq> CHR 0x00) sg"
    using sg by (auto simp: is_sign_def)
  ultimately show ?thesis
    by (simp add: s)
qed

lemma c_str_id: "list_all (\<lambda>c. c \<noteq> CHR 0x00) s \<Longrightarrow> c_str s = s"
  by (simp add: c_str_def list_all_iff)

lemma c_str_prefix: "length (c_str s) \<le> length s \<and> (length (c_str s) = length s \<longrightarrow> c_str s = s)"
  unfolding c_str_def
  by (metis length_takeWhile_le takeWhile_eq_take take_all order_refl)

lemma c_str_hd: "s \<noteq> [] \<Longrightarrow> \<not> isspace (hd s) \<Longrightarrow> c_str s = [] \<or> \<not> isspace (hd (c_str s))"
  by (cases s) (auto simp: c_str_def)

lemma trim_ascii_hd: "trim_ascii s \<noteq> [] \<Longrightarrow> \<not> isspace (hd (trim_ascii s))"
proof -
  assume ne: "trim_ascii s \<noteq> []"
  define m where "m = dropWhile isspace s"
  define t where "t = rev (dropWhile isspace (rev m))"
  have tt: "trim_ascii s = t"
    by (simp add: trim_ascii_eq t_def m_def)
  have "rev m = takeWhile isspace (rev m) @ dropWhile isspace (rev m)"
    by simp
  then have "m = t @ rev (takeWhile isspace (rev m))"
    unfolding t_def by (metis rev_append rev_rev_ident)
  with ne tt have h: "hd m = hd t" "m \<noteq> []"
    by (metis hd_append2, metis append_is_Nil_conv)
  from h(2) have "\<not> isspace (hd m)"
    unfolding m_def by (rule hd_dropWhile)
  with h(1) tt show ?thesis by simp
qed

lemma strtod_at_subject:
  assumes "s = [] \<or> \<not> isspace (hd s)"
  shows "strtod u s =
    (case scan_subject s of None \<Rightarrow> (0, False) | Some (n, v) \<Rightarrow> (n, range_error u v))"
proof -
  have "takeWhile isspace s = []"
    using assms by (cases s) auto
  then show ?thesis
    by (simp add: strtod_def split: option.split)
qed

lemma valid_numeric_iff:
  assumes "t \<noteq> []" and "\<not> isspace (hd t)" and "\<not> isspace (last t)"
  shows "valid_numeric u t \<longleftrightarrow>
         (\<exists>v. scan_subject t = Some (length t, v) \<and> \<not> range_error u v)"
proof
  assume v: "valid_numeric u t"
  note st = strtod_at_subject [OF c_str_hd [OF assms(1,2)], of u]
  from v obtain idx where i: "stod u t = Inr idx" and sk: "skip_spaces t idx = length t"
    by (auto simp: valid_numeric_def split: sum.splits)
  from i obtain v' where sc: "scan_subject (c_str t) = Some (idx, v')" and r: "\<not> range_error u v'"
    by (auto simp: stod_def st split: option.splits if_splits)
  from scan_subject_sound [OF sc] have b: "idx \<le> length (c_str t)"
    by simp
  have "\<not> idx < length t"
    using skip_spaces_stops [OF _ assms(3), of idx] sk by auto
  with b c_str_prefix [of t] have "idx = length t" "c_str t = t"
    by auto
  with sc r show "\<exists>v. scan_subject t = Some (length t, v) \<and> \<not> range_error u v"
    by auto
next
  assume "\<exists>v. scan_subject t = Some (length t, v) \<and> \<not> range_error u v"
  then obtain v where sc: "scan_subject t = Some (length t, v)" and r: "\<not> range_error u v"
    by blast
  from scan_subject_sound [OF sc] have "is_stod_literal t"
    by simp
  then have c: "c_str t = t"
    by (intro c_str_id literal_no_NUL)
  have st: "strtod u t = (length t, range_error u v)"
    using strtod_at_subject [of t u] assms(2) sc by simp
  have "stod u t = Inr (length t)"
    using assms(1) r by (simp add: stod_def c st)
  moreover have "skip_spaces t (length t) = length t"
    by (simp add: skip_spaces_eq)
  ultimately show "valid_numeric u t"
    by (simp add: valid_numeric_def)
qed

text \<open>
  C3, as the code has it: a line yields a reading with the text \<open>t\<close> if and only if
  \<open>t\<close> is the trimmed line, the whole of \<open>t\<close> is a literal that \<^verbatim>\<open>std::stod\<close>
  converts (an optionally signed decimal or hexadecimal floating constant, \<^verbatim>\<open>inf\<close>,
  \<^verbatim>\<open>infinity\<close>, \<^verbatim>\<open>nan\<close> or \<^verbatim>\<open>nan(...)\<close>, letters in either case), and the
  conversion reports no range error.
\<close>

theorem validator_accepts_stod_literals:
  "validate uflow line = Reading t \<longleftrightarrow>
   t = trim_ascii line \<and> is_stod_literal t \<and> \<not> range_error uflow (stod_value t)"
proof
  assume r: "validate uflow line = Reading t"
  then have t: "t = trim_ascii line" "t \<noteq> []"
    using validate_Reading by blast+
  from r have v: "valid_numeric uflow t"
    by (auto simp: validate_def t(1) Let_def split: if_splits)
  have "\<not> isspace (hd t)" "\<not> isspace (last t)"
    using t trim_ascii_hd trim_ascii_last by blast+
  with v t(2) obtain x where sc: "scan_subject t = Some (length t, x)" and nr: "\<not> range_error uflow x"
    using valid_numeric_iff by blast
  from scan_subject_sound [OF sc] have "is_stod_literal t"
    by simp
  with sc nr t(1) show "t = trim_ascii line \<and> is_stod_literal t \<and> \<not> range_error uflow (stod_value t)"
    by (simp add: stod_value_def)
next
  assume a: "t = trim_ascii line \<and> is_stod_literal t \<and> \<not> range_error uflow (stod_value t)"
  then obtain x where sc: "scan_subject t = Some (length t, x)"
    using scan_subject_complete by blast
  with a have nr: "\<not> range_error uflow x"
    by (simp add: stod_value_def)
  from scan_subject_sound [OF sc] have ne: "t \<noteq> []"
    by auto
  with a have "\<not> isspace (hd t)" "\<not> isspace (last t)"
    using trim_ascii_hd trim_ascii_last by blast+
  with ne sc nr have "valid_numeric uflow t"
    using valid_numeric_iff by blast
  with a ne show "validate uflow line = Reading t"
    by (simp add: validate_def)
qed


section \<open>Literals that are not decimal, decimal literals out of range\<close>

lemma validate_inf: "validate u ''inf\<newline>'' = Reading ''inf''"
proof -
  have t: "trim_ascii ''inf\<newline>'' = ''inf''" by code_simp
  have s: "scan_subject ''inf'' = Some (3, Infinite)" by code_simp
  have "valid_numeric u ''inf''"
    by (simp add: stod_unfold s range_error_def)
  then show ?thesis
    by (simp add: validate_def t)
qed

lemma validate_1e309: "validate u ''1e309\<newline>'' = Rejected ''1e309''"
proof -
  have t: "trim_ascii ''1e309\<newline>'' = ''1e309''" by code_simp
  have m: "scan_mantissa isdigit ''1e309'' = Some (''1'', [], 1)"
    by (simp add: scan_mantissa_def isdigit_def)
  have d: "digits_val 10 ''309'' = 309" "digits_val 10 ''1'' = 1"
    by (simp_all add: digits_val_def xdigit_val_def isdigit_def)
  have e: "scan_exponent CHR ''e'' ''e309'' = (309, 4)"
    by (simp add: scan_exponent_def tolower_def scan_sign_def isdigit_def d Let_def)
  have h: "scan_hex ''1e309'' = None"
    by (simp add: scan_hex_def ci_prefix_def tolower_def)
  define big :: rat where "big = 10 ^ 309"
  have s: "scan_subject ''1e309'' = Some (5, Finite big)"
    by (simp add: scan_subject_def scan_sign_def h scan_decimal_def m e d scale_def big_def)
  have r: "range_error u (Finite big)"
    by (simp add: range_error_def DBL_OVERFLOW_def big_def)
  have "\<not> valid_numeric u ''1e309''"
    by (simp add: valid_numeric_def stod_def strtod_def c_str_def isspace_def s r)
  then show ?thesis
    by (simp add: validate_def t)
qed

lemma decimal_literal_1e309: "is_decimal_literal ''1e309''"
proof -
  have m: "is_mantissa isdigit ''1''"
    by (rule is_mantissa_int) (simp_all add: isdigit_def)
  have "is_sign []"
    by (simp add: is_sign_def)
  moreover have "tolower CHR ''e'' = CHR ''e''"
    by (simp add: tolower_def)
  moreover have "list_all isdigit ''309''" "''309'' \<noteq> []"
    by (simp_all add: isdigit_def)
  ultimately have "is_exponent CHR ''e'' (CHR ''e'' # [] @ ''309'')"
    unfolding is_exponent_def
    by (intro disjI2 exI conjI) (assumption | rule refl)+
  with m have "is_decimal_body (''1'' @ ''e309'')"
    unfolding is_decimal_body_def
    by (intro exI [of _ "''1''"] exI [of _ "''e309''"]) simp
  then have "is_decimal_body ''1e309''"
    by simp
  then show ?thesis
    unfolding is_decimal_literal_def
    by (intro exI [of _ "[]"] exI [of _ "''1e309''"]) (simp add: is_sign_def)
qed

text \<open>
  C3, as the specification words it (a reading if and only if the whole trimmed text is
  a decimal numeric literal), fails in both directions: the line \<^verbatim>\<open>inf\<close> yields a
  reading and is no decimal literal, and \<^verbatim>\<open>1e309\<close> is a decimal literal and is
  rejected, since its value is beyond the range of \<^verbatim>\<open>double\<close> and \<^verbatim>\<open>std::stod\<close>
  throws \<^verbatim>\<open>std::out_of_range\<close>.
\<close>

theorem decimal_literal_counterexample:
  "validate (uflow_erange quiet_env) ''inf\<newline>'' = Reading ''inf''
   \<and> \<not> is_decimal_literal ''inf''
   \<and> is_decimal_literal ''1e309''
   \<and> validate (uflow_erange quiet_env) ''1e309\<newline>'' = Rejected ''1e309''"
proof -
  have "\<not> is_decimal_literal ''inf''"
  proof
    assume "is_decimal_literal ''inf''"
    then have "list_all decimal_char ''inf''"
      by (rule decimal_literal_chars)
    then show False
      by (simp add: decimal_char_def)
  qed
  then show ?thesis
    by (simp add: validate_inf validate_1e309 decimal_literal_1e309)
qed

theorem validator_accepts_stod_literals_witness:
  "validate (uflow_erange quiet_env) ''0x1A\<newline>'' = Reading ''0x1A''"
proof -
  have t: "trim_ascii ''0x1A\<newline>'' = ''0x1A''" by code_simp
  have s: "scan_subject ''0x1A'' = Some (4, Finite 26)" by code_simp
  have "is_mantissa isxdigit ''1A''"
    by (rule is_mantissa_int) (simp_all add: isxdigit_def)
  moreover have "is_exponent CHR ''p'' []"
    by (simp add: is_exponent_def)
  moreover have "map tolower ''0x'' = ''0x''"
    by (simp add: tolower_def)
  ultimately have "is_hex_body (''0x'' @ ''1A'' @ [])"
    unfolding is_hex_body_def
    by (intro exI conjI) (assumption | rule refl)+
  then have "is_stod_literal ([] @ ''0x1A'')"
    unfolding is_stod_literal_def
    by (intro exI [of _ "[]"] exI [of _ "''0x1A''"]) (simp add: is_sign_def)
  moreover have "\<not> range_error (uflow_erange quiet_env) (stod_value ''0x1A'')"
    by (simp add: stod_value_def s in_range DBL_MIN_def DBL_OVERFLOW_def)
  ultimately show ?thesis
    using validator_accepts_stod_literals [of "uflow_erange quiet_env" "''0x1A\<newline>''" "''0x1A''"]
    by (simp add: t)
qed

end
